theory Spec2Isabelle
  imports Main
begin

section \<open>IntSet: a set of distinct ints in a manually managed dynamic array\<close>

text \<open>
  The development embeds \<^verbatim>\<open>IntSet.cpp\<close>. An \<^verbatim>\<open>IntSet\<close> object has three members:
  the dynamic array \<^verbatim>\<open>data\<close>, and the ints \<^verbatim>\<open>capacity\<close> and \<^verbatim>\<open>used\<close>.

  \<^item> The array is a list of slots whose length is the size that was given to
    \<^verbatim>\<open>new int[...]\<close>. A slot that has never been written holds no determinate value
    (\<open>None\<close>). Copying a slot copies whatever it holds; comparing or printing it needs
    a determinate value.
  \<^item> Every function returns an outcome together with the log of the array positions it
    has read. The outcome is an error where C++ leaves the behaviour undefined or throws:
    an index outside the allocated array, the use of an indeterminate value, the
    conversion of a too large \<^verbatim>\<open>double\<close> to \<^verbatim>\<open>int\<close>, a negative array length.
  \<^item> \<^verbatim>\<open>capacity\<close>, \<^verbatim>\<open>used\<close> and the loop indices are C++ \<^verbatim>\<open>int\<close>s, taken as
    32 bits wide. The only arithmetic on them that can leave the range of \<^verbatim>\<open>int\<close> while
    the members themselves are in range is the growth expression of \<^verbatim>\<open>add\<close>, which is
    checked. The elements are only ever compared and printed.
  \<^item> \<^verbatim>\<open>new\<close> is assumed to find memory.
  \<^item> \<^verbatim>\<open>DEFAULT_CAPACITY\<close> is declared in \<^verbatim>\<open>IntSet.h\<close>, which is not part of the sources
    at hand; the functions that mention it take it as the parameter \<open>dc\<close>.
\<close>

datatype error = OutOfBounds | Indeterminate | IntOverflow | BadArrayLength

type_synonym slot = "int option"

text \<open>A read of the array of some set: the position, and \<^verbatim>\<open>used\<close> of that set at the time.\<close>

type_synonym access = "int \<times> int"

type_synonym 'a run = "(error + 'a) \<times> access list"

record IntSet =
  data :: "slot list"
  capacity :: int
  used :: int

abbreviation outcome :: "'a run \<Rightarrow> error + 'a" where
  "outcome m \<equiv> fst m"

abbreviation reads :: "'a run \<Rightarrow> access list" where
  "reads m \<equiv> snd m"

definition ok :: "'a \<Rightarrow> 'a run" where
  "ok x = (Inr x, [])"

definition abort :: "error \<Rightarrow> 'a run" where
  "abort e = (Inl e, [])"

text \<open>Sequencing: an error ends the run; the logs are concatenated.\<close>

definition then_do :: "'a run \<Rightarrow> ('a \<Rightarrow> 'b run) \<Rightarrow> 'b run" where
  "then_do m f =
     (case fst m of
        Inl e \<Rightarrow> (Inl e, snd m)
      | Inr x \<Rightarrow> (fst (f x), snd m @ snd (f x)))"

subsection \<open>Primitive operations on the array\<close>

definition INT_MAX :: int where
  "INT_MAX = 2147483647"

definition INT_MIN :: int where
  "INT_MIN = - 2147483648"

text \<open>\<^verbatim>\<open>new int[n]\<close>: a fresh array of indeterminate contents.\<close>

definition new_array :: "int \<Rightarrow> slot list run" where
  "new_array n = (if n < 0 then abort BadArrayLength else ok (replicate (nat n) None))"

text \<open>\<^verbatim>\<open>s.data[i]\<close> as an rvalue.\<close>

definition rd :: "IntSet \<Rightarrow> int \<Rightarrow> slot run" where
  "rd s i =
     (if 0 \<le> i \<and> i < int (length (data s)) then Inr (data s ! nat i) else Inl OutOfBounds,
      [(i, used s)])"

text \<open>The value of a slot, where the program compares it, prints it or passes it on.\<close>

definition val :: "slot \<Rightarrow> int run" where
  "val x = (case x of None \<Rightarrow> abort Indeterminate | Some v \<Rightarrow> ok v)"

text \<open>\<^verbatim>\<open>arr[i] = x\<close>.\<close>

definition wr :: "slot list \<Rightarrow> int \<Rightarrow> slot \<Rightarrow> slot list run" where
  "wr arr i x =
     (if 0 \<le> i \<and> i < int (length arr) then ok (arr[nat i := x]) else abort OutOfBounds)"

text \<open>
  The loop \<^verbatim>\<open>for (index = ...; index < bound; ++index) dst[index] = src.data[index];\<close>
  which \<^verbatim>\<open>resize\<close> runs with bound \<^verbatim>\<open>used\<close>, the copy constructor with bound
  \<^verbatim>\<open>capacity\<close> and the assignment operator with bound \<^verbatim>\<open>rhs.used\<close>.
\<close>

function copy_slots :: "IntSet \<Rightarrow> int \<Rightarrow> slot list \<Rightarrow> int \<Rightarrow> slot list run" where
  "copy_slots src bound dst index =
     (if index < bound
      then then_do (rd src index) (\<lambda>x.
           then_do (wr dst index x) (\<lambda>dst'.
           copy_slots src bound dst' (index + 1)))
      else ok dst)"
  by pat_completeness auto
termination
  by (relation "measure (\<lambda>(src, bound, dst, index). nat (bound - index))") auto

subsection \<open>Capacity management and construction\<close>

definition resize :: "int \<Rightarrow> IntSet \<Rightarrow> int \<Rightarrow> IntSet run" where
  "resize dc s new_capacity =
     (let s1 = (if new_capacity \<le> 0 then s\<lparr>capacity := dc\<rparr>
                else if new_capacity < used s then s\<lparr>capacity := used s\<rparr>
                else s\<lparr>capacity := new_capacity\<rparr>)
      in then_do (new_array (capacity s1)) (\<lambda>new_data.
         then_do (copy_slots s1 (used s1) new_data 0) (\<lambda>new_data'.
         ok (s1\<lparr>data := new_data'\<rparr>))))"

text \<open>\<^verbatim>\<open>IntSet::IntSet(int initial_capacity)\<close>\<close>

definition IntSet_init :: "int \<Rightarrow> int \<Rightarrow> IntSet run" where
  "IntSet_init dc initial_capacity =
     (let cap = (if initial_capacity \<le> 0 then dc else initial_capacity)
      in then_do (new_array cap) (\<lambda>d.
         ok \<lparr>data = d, capacity = cap, used = 0\<rparr>))"

text \<open>\<^verbatim>\<open>IntSet::IntSet(const IntSet& src)\<close>\<close>

definition IntSet_copy :: "IntSet \<Rightarrow> IntSet run" where
  "IntSet_copy src =
     then_do (new_array (capacity src)) (\<lambda>d.
     then_do (copy_slots src (capacity src) d 0) (\<lambda>d'.
     ok \<lparr>data = d', capacity = capacity src, used = used src\<rparr>))"

text \<open>
  \<^verbatim>\<open>IntSet::operator=\<close>. The flag \<open>same\<close> is the outcome of the test
  \<^verbatim>\<open>this == &rhs\<close>, which compares addresses.
\<close>

definition assign :: "IntSet \<Rightarrow> IntSet \<Rightarrow> bool \<Rightarrow> IntSet run" where
  "assign this rhs same =
     (if same then ok this
      else then_do (new_array (capacity rhs)) (\<lambda>temp_data.
           then_do (copy_slots rhs (used rhs) temp_data 0) (\<lambda>temp_data'.
           ok (this\<lparr>data := temp_data', capacity := capacity rhs, used := used rhs\<rparr>))))"

subsection \<open>Queries\<close>

definition size_of :: "IntSet \<Rightarrow> int" where
  "size_of s = used s"

definition isEmpty :: "IntSet \<Rightarrow> bool" where
  "isEmpty s \<longleftrightarrow> used s = 0"

function contains_loop :: "IntSet \<Rightarrow> int \<Rightarrow> int \<Rightarrow> bool run" where
  "contains_loop s anInt index =
     (if index < used s
      then then_do (rd s index) (\<lambda>x.
           then_do (val x) (\<lambda>v.
           if v = anInt then ok True else contains_loop s anInt (index + 1)))
      else ok False)"
  by pat_completeness auto
termination
  by (relation "measure (\<lambda>(s, anInt, index). nat (used s - index))") auto

definition contains :: "IntSet \<Rightarrow> int \<Rightarrow> bool run" where
  "contains s anInt = (if used s > 0 then contains_loop s anInt 0 else ok False)"

function subset_loop :: "IntSet \<Rightarrow> IntSet \<Rightarrow> int \<Rightarrow> bool run" where
  "subset_loop this otherIntSet index =
     (if index < used this
      then then_do (rd this index) (\<lambda>x.
           then_do (val x) (\<lambda>v.
           then_do (contains otherIntSet v) (\<lambda>c.
           if \<not> c then ok False else subset_loop this otherIntSet (index + 1))))
      else ok True)"
  by pat_completeness auto
termination
  by (relation "measure (\<lambda>(this, otherIntSet, index). nat (used this - index))") auto

definition isSubsetOf :: "IntSet \<Rightarrow> IntSet \<Rightarrow> bool run" where
  "isSubsetOf this otherIntSet =
     (if isEmpty this then ok True else subset_loop this otherIntSet 0)"

text \<open>\<^verbatim>\<open>operator==\<close>; the second operand of \<^verbatim>\<open>&&\<close> is evaluated only if the first holds.\<close>

definition equals :: "IntSet \<Rightarrow> IntSet \<Rightarrow> bool run" where
  "equals is1 is2 =
     (if isEmpty is1 \<and> isEmpty is2 then ok True
      else then_do (isSubsetOf is1 is2) (\<lambda>a.
           if a then then_do (isSubsetOf is2 is1) (\<lambda>b. if b then ok True else ok False)
           else ok False))"

subsection \<open>The diagnostic dump\<close>

text \<open>\<^verbatim>\<open>out << n\<close> for an \<^verbatim>\<open>int\<close>: decimal digits, with a minus sign below zero.\<close>

definition digit_char :: "nat \<Rightarrow> char" where
  "digit_char d = ''0123456789'' ! d"

function show_nat :: "nat \<Rightarrow> string" where
  "show_nat n = (if n < 10 then [digit_char n] else show_nat (n div 10) @ [digit_char (n mod 10)])"
  by pat_completeness auto
termination
  by (relation "measure (\<lambda>n. n)") auto

definition show_int :: "int \<Rightarrow> string" where
  "show_int i = (if i < 0 then CHR ''-'' # show_nat (nat (- i)) else show_nat (nat i))"

function dump_loop :: "IntSet \<Rightarrow> string \<Rightarrow> int \<Rightarrow> string run" where
  "dump_loop s out i =
     (if i < used s
      then then_do (rd s i) (\<lambda>x.
           then_do (val x) (\<lambda>v.
           dump_loop s (out @ ''  '' @ show_int v) (i + 1)))
      else ok out)"
  by pat_completeness auto
termination
  by (relation "measure (\<lambda>(s, out, i). nat (used s - i))") auto

definition DumpData :: "IntSet \<Rightarrow> string \<Rightarrow> string run" where
  "DumpData s out =
     (if used s > 0
      then then_do (rd s 0) (\<lambda>x.
           then_do (val x) (\<lambda>v.
           dump_loop s (out @ show_int v) 1))
      else ok out)"

subsection \<open>Mutators\<close>

definition reset :: "IntSet \<Rightarrow> IntSet" where
  "reset s = s\<lparr>used := 0\<rparr>"

text \<open>
  \<^verbatim>\<open>int(capacity * 1.5) + 1\<close>. The product is formed in \<^verbatim>\<open>double\<close>; for a 32-bit
  \<^verbatim>\<open>capacity\<close> three halves of it have at most 34 significant bits, so the product is
  exact. The conversion to \<^verbatim>\<open>int\<close> truncates towards zero and is defined only for a
  value in the range of \<^verbatim>\<open>int\<close>, as is the addition of 1.
\<close>

definition trunc_three_halves :: "int \<Rightarrow> int" where
  "trunc_three_halves c = (if 0 \<le> c then (3 * c) div 2 else - ((3 * (- c)) div 2))"

definition grown_capacity :: "int \<Rightarrow> int run" where
  "grown_capacity c =
     (let t = trunc_three_halves c
      in if INT_MIN \<le> t \<and> t + 1 \<le> INT_MAX then ok (t + 1) else abort IntOverflow)"

definition add :: "int \<Rightarrow> IntSet \<Rightarrow> int \<Rightarrow> (bool \<times> IntSet) run" where
  "add dc s anInt =
     then_do (contains s anInt) (\<lambda>c.
     if \<not> c
     then then_do (if used s \<ge> capacity s
                   then then_do (grown_capacity (capacity s)) (\<lambda>n. resize dc s n)
                   else ok s) (\<lambda>s1.
          then_do (wr (data s1) (used s1) (Some anInt)) (\<lambda>d.
          ok (True, s1\<lparr>data := d, used := used s1 + 1\<rparr>)))
     else ok (False, s))"

text \<open>The inner loop of \<^verbatim>\<open>remove\<close>: \<^verbatim>\<open>data[index2] = data[index2 + 1]\<close>.\<close>

function shift_left :: "IntSet \<Rightarrow> int \<Rightarrow> IntSet run" where
  "shift_left s index2 =
     (if index2 < used s - 1
      then then_do (rd s (index2 + 1)) (\<lambda>x.
           then_do (wr (data s) index2 x) (\<lambda>d.
           shift_left (s\<lparr>data := d\<rparr>) (index2 + 1)))
      else ok s)"
  by pat_completeness auto
termination
  by (relation "measure (\<lambda>(s, index2). nat (used s - 1 - index2))") auto

function remove_loop :: "IntSet \<Rightarrow> int \<Rightarrow> int \<Rightarrow> (bool \<times> IntSet) run" where
  "remove_loop s anInt index =
     (if index < used s
      then then_do (rd s index) (\<lambda>x.
           then_do (val x) (\<lambda>v.
           if v = anInt
           then then_do (shift_left s index) (\<lambda>s'.
                ok (True, s'\<lparr>used := used s' - 1\<rparr>))
           else remove_loop s anInt (index + 1)))
      else ok (False, s))"
  by pat_completeness auto
termination
  by (relation "measure (\<lambda>(s, anInt, index). nat (used s - index))") auto

definition remove :: "IntSet \<Rightarrow> int \<Rightarrow> (bool \<times> IntSet) run" where
  "remove s anInt =
     then_do (contains s anInt) (\<lambda>c.
     if c then remove_loop s anInt 0 else ok (False, s))"

subsection \<open>Set algebra\<close>

text \<open>
  Each operation copy-constructs a local set from the invoking set, works on it and
  returns it; the returned object is the local one (the copy on return is elided).
\<close>

function union_loop :: "int \<Rightarrow> IntSet \<Rightarrow> int \<Rightarrow> IntSet \<Rightarrow> int \<Rightarrow> IntSet run" where
  "union_loop dc otherIntSet sizeOtherInt unionIntSet index =
     (if index < sizeOtherInt
      then then_do (rd otherIntSet index) (\<lambda>x.
           then_do (val x) (\<lambda>v.
           then_do (contains unionIntSet v) (\<lambda>c.
           if \<not> c
           then then_do (rd otherIntSet index) (\<lambda>x'.
                then_do (val x') (\<lambda>v'.
                then_do (add dc unionIntSet v') (\<lambda>r.
                union_loop dc otherIntSet sizeOtherInt (snd r) (index + 1))))
           else union_loop dc otherIntSet sizeOtherInt unionIntSet (index + 1))))
      else ok unionIntSet)"
  by pat_completeness auto
termination
  by (relation "measure (\<lambda>(dc, otherIntSet, sizeOtherInt, unionIntSet, index).
        nat (sizeOtherInt - index))") auto

definition unionWith :: "int \<Rightarrow> IntSet \<Rightarrow> IntSet \<Rightarrow> IntSet run" where
  "unionWith dc this otherIntSet =
     then_do (IntSet_copy this) (\<lambda>unionIntSet.
     union_loop dc otherIntSet (size_of otherIntSet) unionIntSet 0)"

function intersect_loop :: "IntSet \<Rightarrow> IntSet \<Rightarrow> int \<Rightarrow> IntSet \<Rightarrow> int \<Rightarrow> IntSet run" where
  "intersect_loop this otherIntSet sizeOtherInt interSet index =
     (if index < sizeOtherInt
      then then_do (rd this index) (\<lambda>x.
           then_do (val x) (\<lambda>v.
           then_do (contains otherIntSet v) (\<lambda>c.
           if \<not> c
           then then_do (rd this index) (\<lambda>x'.
                then_do (val x') (\<lambda>v'.
                then_do (remove interSet v') (\<lambda>r.
                intersect_loop this otherIntSet sizeOtherInt (snd r) (index + 1))))
           else intersect_loop this otherIntSet sizeOtherInt interSet (index + 1))))
      else ok interSet)"
  by pat_completeness auto
termination
  by (relation "measure (\<lambda>(this, otherIntSet, sizeOtherInt, interSet, index).
        nat (sizeOtherInt - index))") auto

definition intersect :: "IntSet \<Rightarrow> IntSet \<Rightarrow> IntSet run" where
  "intersect this otherIntSet =
     then_do (IntSet_copy this) (\<lambda>interSet.
     intersect_loop this otherIntSet (size_of otherIntSet) interSet 0)"

function subtract_loop :: "IntSet \<Rightarrow> int \<Rightarrow> IntSet \<Rightarrow> int \<Rightarrow> IntSet run" where
  "subtract_loop otherIntSet sizeOtherInt subSet index =
     (if index < sizeOtherInt
      then then_do (rd otherIntSet index) (\<lambda>x.
           then_do (val x) (\<lambda>v.
           then_do (contains subSet v) (\<lambda>c.
           if c
           then then_do (rd otherIntSet index) (\<lambda>x'.
                then_do (val x') (\<lambda>v'.
                then_do (remove subSet v') (\<lambda>r.
                subtract_loop otherIntSet sizeOtherInt (snd r) (index + 1))))
           else subtract_loop otherIntSet sizeOtherInt subSet (index + 1))))
      else ok subSet)"
  by pat_completeness auto
termination
  by (relation "measure (\<lambda>(otherIntSet, sizeOtherInt, subSet, index).
        nat (sizeOtherInt - index))") auto

definition subtract :: "IntSet \<Rightarrow> IntSet \<Rightarrow> IntSet run" where
  "subtract this otherIntSet =
     then_do (IntSet_copy this) (\<lambda>subSet.
     subtract_loop otherIntSet (size_of otherIntSet) subSet 0)"

subsection \<open>The class invariant\<close>

text \<open>The valid elements, in storage order.\<close>

definition elems :: "IntSet \<Rightarrow> int list" where
  "elems s = map the (take (nat (used s)) (data s))"

text \<open>The valid prefix lies inside the array and every slot of it has been written.\<close>

definition stored :: "IntSet \<Rightarrow> bool" where
  "stored s \<longleftrightarrow>
     0 \<le> used s \<and> nat (used s) \<le> length (data s) \<and> None \<notin> set (take (nat (used s)) (data s))"

definition valid :: "IntSet \<Rightarrow> bool" where
  "valid s \<longleftrightarrow>
     stored s \<and> length (data s) = nat (capacity s) \<and> 1 \<le> capacity s \<and> distinct (elems s)"


text \<open>A log all of whose reads are below \<^verbatim>\<open>used\<close> of the set that owns the array read.\<close>

definition prefix_only :: "access list \<Rightarrow> bool" where
  "prefix_only l \<longleftrightarrow> (\<forall>(p, u) \<in> set l. 0 \<le> p \<and> p < u)"

text \<open>A run that, if it ends without error, ends in a result with the property \<open>P\<close>.\<close>

definition yields :: "('a \<Rightarrow> bool) \<Rightarrow> 'a run \<Rightarrow> bool" where
  "yields P m \<longleftrightarrow> (case outcome m of Inl e \<Rightarrow> True | Inr y \<Rightarrow> P y)"

subsection \<open>Reachable objects\<close>

text \<open>
  The objects that a program can hold: those the constructor makes, and those that a
  member function or operator returns or leaves behind, without error, when its
  operands are such objects. \<^verbatim>\<open>resize\<close> is private; it is listed with an
  arbitrary argument all the same.
\<close>

inductive reachable :: "int \<Rightarrow> IntSet \<Rightarrow> bool" for dc :: int where
  constructed: "outcome (IntSet_init dc h) = Inr s \<Longrightarrow> reachable dc s"
| copied: "reachable dc a \<Longrightarrow> outcome (IntSet_copy a) = Inr s \<Longrightarrow> reachable dc s"
| assigned:
    "reachable dc a \<Longrightarrow> reachable dc b \<Longrightarrow> outcome (assign a b False) = Inr s \<Longrightarrow>
     reachable dc s"
| self_assigned: "reachable dc a \<Longrightarrow> outcome (assign a a True) = Inr s \<Longrightarrow> reachable dc s"
| added: "reachable dc a \<Longrightarrow> outcome (add dc a x) = Inr (r, s) \<Longrightarrow> reachable dc s"
| removed: "reachable dc a \<Longrightarrow> outcome (remove a x) = Inr (r, s) \<Longrightarrow> reachable dc s"
| cleared: "reachable dc a \<Longrightarrow> reachable dc (reset a)"
| resized: "reachable dc a \<Longrightarrow> outcome (resize dc a n) = Inr s \<Longrightarrow> reachable dc s"
| united:
    "reachable dc a \<Longrightarrow> reachable dc b \<Longrightarrow> outcome (unionWith dc a b) = Inr s \<Longrightarrow>
     reachable dc s"
| intersected:
    "reachable dc a \<Longrightarrow> reachable dc b \<Longrightarrow> outcome (intersect a b) = Inr s \<Longrightarrow>
     reachable dc s"
| subtracted:
    "reachable dc a \<Longrightarrow> reachable dc b \<Longrightarrow> outcome (subtract a b) = Inr s \<Longrightarrow>
     reachable dc s"

subsection \<open>Sample sets\<close>

text \<open>The set holding 1, 2, 3 in this order, in an array that is full.\<close>

definition set_123 :: IntSet where
  "set_123 = \<lparr>data = [Some 1, Some 2, Some 3], capacity = 3, used = 3\<rparr>"

text \<open>The same values in another order, in a larger array with two unwritten slots.\<close>

definition set_312 :: IntSet where
  "set_312 = \<lparr>data = [Some 3, Some 1, Some 2, None, None], capacity = 5, used = 3\<rparr>"

text \<open>The set holding 2 alone.\<close>

definition set_2 :: IntSet where
  "set_2 = \<lparr>data = [Some 2], capacity = 1, used = 1\<rparr>"

text \<open>The set holding 0, 1, ..., \<open>n - 1\<close> in this order, in an array that is full.\<close>

definition full_set :: "nat \<Rightarrow> IntSet" where
  "full_set n = \<lparr>data = map (\<lambda>i. Some (int i)) [0..<n], capacity = int n, used = int n\<rparr>"

section \<open>Basic facts\<close>

declare copy_slots.simps [simp del] contains_loop.simps [simp del] subset_loop.simps [simp del]
  show_nat.simps [simp del] dump_loop.simps [simp del] shift_left.simps [simp del]
  remove_loop.simps [simp del] union_loop.simps [simp del] intersect_loop.simps [simp del]
  subtract_loop.simps [simp del]

lemma then_do_ok [simp]: "then_do (ok x) f = f x"
  by (simp add: then_do_def ok_def)

lemma then_do_abort [simp]: "then_do (abort e) f = abort e"
  by (simp add: then_do_def abort_def)

lemma then_do_Inr [simp]: "then_do (Inr x, l) f = (fst (f x), l @ snd (f x))"
  by (simp add: then_do_def)

lemma then_do_Inl [simp]: "then_do (Inl e, l) f = (Inl e, l)"
  by (simp add: then_do_def)

lemma outcome_ok [simp]: "outcome (ok x) = Inr x" and reads_ok [simp]: "reads (ok x) = []"
  by (simp_all add: ok_def)

lemma outcome_abort [simp]: "outcome (abort e) = Inl e" and reads_abort [simp]: "reads (abort e) = []"
  by (simp_all add: abort_def)

lemma outcome_then_do:
  "outcome (then_do m f) = (case outcome m of Inl e \<Rightarrow> Inl e | Inr x \<Rightarrow> outcome (f x))"
  by (simp add: then_do_def split: sum.splits)

lemma reads_then_do:
  "reads (then_do m f) = (case outcome m of Inl e \<Rightarrow> reads m | Inr x \<Rightarrow> reads m @ reads (f x))"
  by (simp add: then_do_def split: sum.splits)

lemma then_do_Inr_D:
  "outcome (then_do m f) = Inr y \<Longrightarrow> \<exists>x. outcome m = Inr x \<and> outcome (f x) = Inr y"
  by (simp add: outcome_then_do split: sum.splits)

lemma rd_inside:
  "0 \<le> i \<Longrightarrow> nat i < length (data s) \<Longrightarrow> rd s i = (Inr (data s ! nat i), [(i, used s)])"
  by (simp add: rd_def nat_less_iff)

lemma rd_stored:
  "stored s \<Longrightarrow> 0 \<le> i \<Longrightarrow> i < used s \<Longrightarrow> rd s i = (Inr (Some (elems s ! nat i)), [(i, used s)])"
proof -
  assume st: "stored s" and i: "0 \<le> i" "i < used s"
  then have l: "nat i < nat (used s)" "nat (used s) \<le> length (data s)"
    by (simp_all add: stored_def)
  then have "take (nat (used s)) (data s) ! nat i \<in> set (take (nat (used s)) (data s))"
    by (intro nth_mem) simp
  then have "data s ! nat i \<in> set (take (nat (used s)) (data s))"
    using l by simp
  with st have "data s ! nat i \<noteq> None"
    unfolding stored_def by metis
  then have "data s ! nat i = Some (elems s ! nat i)"
    using l by (auto simp: elems_def)
  moreover have "nat i < length (data s)"
    using l by linarith
  ultimately show ?thesis
    using i(1) by (simp add: rd_inside)
qed

lemma wr_inside:
  "0 \<le> i \<Longrightarrow> nat i < length arr \<Longrightarrow> wr arr i x = ok (arr[nat i := x])"
  by (simp add: wr_def nat_less_iff)

lemma copy_slots_outcome:
  "0 \<le> index \<Longrightarrow> index \<le> bound \<Longrightarrow> nat bound \<le> length (data src) \<Longrightarrow> nat bound \<le> length dst \<Longrightarrow>
   outcome (copy_slots src bound dst index) =
     Inr (take (nat index) dst @ drop (nat index) (take (nat bound) (data src)) @ drop (nat bound) dst)"
proof (induction src bound dst index rule: copy_slots.induct)
  case (1 src bound dst index)
  show ?case
  proof (cases "index < bound")
    case False
    with "1.prems" have "index = bound" by simp
    then show ?thesis by (simp add: copy_slots.simps)
  next
    case True
    define i where "i = nat index"
    define b where "b = nat bound"
    define dst' where "dst' = dst[i := data src ! i]"
    from True "1.prems" have i: "i < length (data src)" "i < length dst" "i < b"
      unfolding i_def b_def by linarith+
    have r: "rd src index = (Inr (data src ! i), [(index, used src)])"
      unfolding i_def using "1.prems"(1) i(1)[unfolded i_def] by (rule rd_inside)
    have w: "wr dst index (data src ! i) = ok dst'"
      unfolding i_def dst'_def using "1.prems"(1) i(2)[unfolded i_def] by (rule wr_inside)
    have n: "nat (index + 1) = Suc i" using "1.prems" by (simp add: i_def)
    have "length dst' = length dst" by (simp add: dst'_def)
    then have IH: "outcome (copy_slots src bound dst' (index + 1)) =
        Inr (take (Suc i) dst' @ drop (Suc i) (take b (data src)) @ drop b dst')"
      using "1.IH"[OF True, of dst'] "1.prems" True n by (simp add: b_def)
    have a: "take (Suc i) dst' = take i dst @ [data src ! i]"
      using i by (simp add: dst'_def take_Suc_conv_app_nth)
    have b: "drop b dst' = drop b dst"
      using i by (simp add: dst'_def)
    have c: "drop i (take b (data src)) = data src ! i # drop (Suc i) (take b (data src))"
      using i Cons_nth_drop_Suc[of i "take b (data src)", symmetric] by simp
    show ?thesis
      using True by (subst copy_slots.simps) (simp add: r w IH a b c flip: i_def b_def)
  qed
qed

lemma prefix_only_Nil [simp]: "prefix_only []"
  by (simp add: prefix_only_def)

lemma prefix_only_append [simp]: "prefix_only (l @ l') \<longleftrightarrow> prefix_only l \<and> prefix_only l'"
  by (auto simp: prefix_only_def)

lemma prefix_only_then_do:
  "prefix_only (reads m) \<Longrightarrow> (\<And>x. outcome m = Inr x \<Longrightarrow> prefix_only (reads (f x))) \<Longrightarrow>
   prefix_only (reads (then_do m f))"
  by (simp add: reads_then_do split: sum.splits)

lemma prefix_only_rd: "0 \<le> i \<Longrightarrow> i < used s \<Longrightarrow> prefix_only (reads (rd s i))"
  by (simp add: rd_def prefix_only_def)

lemma reads_val [simp]: "reads (val x) = []"
  by (simp add: val_def split: option.splits)

lemma reads_wr [simp]: "reads (wr arr i x) = []"
  by (simp add: wr_def)

lemma reads_new_array [simp]: "reads (new_array n) = []"
  by (simp add: new_array_def)

lemma used_rd [simp]: "reads (rd s i) = [(i, used s)]"
  by (simp add: rd_def)

lemma prefix_only_copy_slots:
  "0 \<le> index \<Longrightarrow> bound \<le> used src \<Longrightarrow> prefix_only (reads (copy_slots src bound dst index))"
proof (induction src bound dst index rule: copy_slots.induct)
  case (1 src bound dst index)
  show ?case
  proof (cases "index < bound")
    case False
    then show ?thesis by (simp add: copy_slots.simps)
  next
    case True
    show ?thesis
      apply (subst copy_slots.simps)
      using True "1.prems" "1.IH"[OF True]
      by (auto intro!: prefix_only_then_do prefix_only_rd)
  qed
qed

lemma reads_copy_slots:
  "0 \<le> index \<Longrightarrow> index \<le> bound \<Longrightarrow> nat bound \<le> length (data src) \<Longrightarrow> nat bound \<le> length dst \<Longrightarrow>
   reads (copy_slots src bound dst index) = map (\<lambda>i. (i, used src)) [index..bound - 1]"
proof (induction src bound dst index rule: copy_slots.induct)
  case (1 src bound dst index)
  show ?case
  proof (cases "index < bound")
    case False
    with "1.prems" have "index = bound" by simp
    then show ?thesis by (simp add: copy_slots.simps)
  next
    case True
    define i where "i = nat index"
    define dst' where "dst' = dst[i := data src ! i]"
    from True "1.prems" have i: "i < length (data src)" "i < length dst"
      unfolding i_def by linarith+
    have r: "rd src index = (Inr (data src ! i), [(index, used src)])"
      unfolding i_def using "1.prems"(1) i(1)[unfolded i_def] by (rule rd_inside)
    have w: "wr dst index (data src ! i) = ok dst'"
      unfolding i_def dst'_def using "1.prems"(1) i(2)[unfolded i_def] by (rule wr_inside)
    have "length dst' = length dst" by (simp add: dst'_def)
    then have IH: "reads (copy_slots src bound dst' (index + 1)) =
        map (\<lambda>i. (i, used src)) [index + 1..bound - 1]"
      using "1.IH"[OF True, of dst'] "1.prems" True by simp
    have u: "[index..bound - 1] = index # [index + 1..bound - 1]"
      using True by (simp add: upto_rec1)
    show ?thesis
      using True by (subst copy_slots.simps) (simp add: r w IH u)
  qed
qed

lemma copy_slots_Inr_D:
  "0 \<le> index \<Longrightarrow> index < bound \<Longrightarrow> outcome (copy_slots src bound dst index) = Inr d \<Longrightarrow>
   nat bound \<le> length dst \<and> nat bound \<le> length (data src)"
proof (induction src bound dst index rule: copy_slots.induct)
  case (1 src bound dst index)
  from "1.prems"(3) obtain x dst' where
    x: "outcome (rd src index) = Inr x" and w: "outcome (wr dst index x) = Inr dst'"
    and rest: "outcome (copy_slots src bound dst' (index + 1)) = Inr d"
    using "1.prems"(2) by (subst (asm) copy_slots.simps) (auto dest!: then_do_Inr_D)
  from x "1.prems" have a: "nat index < length (data src)"
    by (auto simp: rd_def split: if_splits)
  from w "1.prems" have b: "nat index < length dst" and l: "length dst' = length dst"
    by (auto simp: wr_def ok_def abort_def split: if_splits)
  show ?case
  proof (cases "index + 1 < bound")
    case True
    with "1.IH"[OF "1.prems"(2) _ _ rest] "1.prems" l show ?thesis by simp
  next
    case False
    with "1.prems" have "nat bound = Suc (nat index)" by linarith
    with a b show ?thesis by simp
  qed
qed

lemma elems_length [simp]: "stored s \<Longrightarrow> length (elems s) = nat (used s)"
  by (simp add: elems_def stored_def)

lemma contains_loop_outcome:
  "stored s \<Longrightarrow> 0 \<le> index \<Longrightarrow>
   outcome (contains_loop s anInt index) = Inr (anInt \<in> set (drop (nat index) (elems s)))"
proof (induction s anInt index rule: contains_loop.induct)
  case (1 s anInt index)
  show ?case
  proof (cases "index < used s")
    case False
    with "1.prems" have "drop (nat index) (elems s) = []" by simp
    with False show ?thesis by (subst contains_loop.simps) simp
  next
    case True
    define i where "i = nat index"
    have i: "i < length (elems s)" using True "1.prems" by (simp add: i_def)
    have r: "rd s index = (Inr (Some (elems s ! i)), [(index, used s)])"
      unfolding i_def using "1.prems" True by (rule rd_stored)
    have n: "nat (index + 1) = Suc i" using "1.prems" by (simp add: i_def)
    have d: "drop i (elems s) = elems s ! i # drop (Suc i) (elems s)"
      using i by (simp add: Cons_nth_drop_Suc)
    show ?thesis
    proof (cases "elems s ! i = anInt")
      case True
      with \<open>index < used s\<close> show ?thesis
        by (subst contains_loop.simps) (simp add: r val_def d flip: i_def)
    next
      case False
      with "1.IH"[OF \<open>index < used s\<close> False "1.prems"(1)] "1.prems" n
      have "outcome (contains_loop s anInt (index + 1)) = Inr (anInt \<in> set (drop (Suc i) (elems s)))"
        by simp
      with False \<open>index < used s\<close> show ?thesis
        by (subst contains_loop.simps) (auto simp add: r val_def d simp flip: i_def)
    qed
  qed
qed

lemma contains_outcome: "stored s \<Longrightarrow> outcome (contains s anInt) = Inr (anInt \<in> set (elems s))"
proof (cases "used s > 0")
  case True
  assume "stored s"
  then show ?thesis using True contains_loop_outcome[of s 0 anInt] by (simp add: contains_def)
next
  case False
  assume "stored s"
  with False have "elems s = []" by (simp add: stored_def elems_def)
  with False show ?thesis by (simp add: contains_def)
qed

lemma prefix_only_contains_loop:
  "0 \<le> index \<Longrightarrow> prefix_only (reads (contains_loop s anInt index))"
proof (induction s anInt index rule: contains_loop.induct)
  case (1 s anInt index)
  show ?case
  proof (cases "index < used s")
    case False
    then show ?thesis by (subst contains_loop.simps) simp
  next
    case True
    show ?thesis
      apply (subst contains_loop.simps)
      using True "1.prems" "1.IH"[OF True]
      by (auto intro!: prefix_only_then_do prefix_only_rd)
  qed
qed

lemma prefix_only_contains: "prefix_only (reads (contains s anInt))"
  by (simp add: contains_def prefix_only_contains_loop)

lemma new_array_ok: "0 \<le> n \<Longrightarrow> new_array n = ok (replicate (nat n) None)"
  by (simp add: new_array_def)

lemma IntSet_init_outcome:
  "0 < dc \<Longrightarrow> IntSet_init dc h =
     ok \<lparr>data = replicate (nat (if h \<le> 0 then dc else h)) None,
         capacity = (if h \<le> 0 then dc else h), used = 0\<rparr>"
  by (simp add: IntSet_init_def new_array_ok)

lemma valid_init:
  "0 < dc \<Longrightarrow> valid \<lparr>data = replicate (nat (if h \<le> 0 then dc else h)) None,
         capacity = (if h \<le> 0 then dc else h), used = 0\<rparr>"
  by (simp add: valid_def stored_def elems_def)

section \<open>Construction\<close>

text \<open>
  C9. For every capacity hint \<open>h\<close> the constructor returns an empty set and no error,
  provided the default capacity of the header is positive. For \<open>h \<le> 0\<close> the capacity
  is the default capacity, and the run is the very run of the hint 0 (so the hint -5
  gives what the hint 0 gives); for \<open>h > 0\<close> the capacity is \<open>h\<close>. The array has as
  many slots as the capacity says.
\<close>

theorem IntSet_init_normalises_hint:
  assumes "0 < dc"
  shows "\<exists>s. outcome (IntSet_init dc h) = Inr s \<and> used s = 0 \<and> isEmpty s
           \<and> capacity s = (if h \<le> 0 then dc else h)
           \<and> length (data s) = nat (capacity s)
           \<and> (h \<le> 0 \<longrightarrow> IntSet_init dc h = IntSet_init dc 0)
           \<and> IntSet_init dc (- 5) = IntSet_init dc 0"
  using assms by (simp add: IntSet_init_outcome isEmpty_def)

theorem IntSet_init_normalises_hint_witness:
  "(0::int) < 1 \<and> outcome (IntSet_init 1 (- 5)) = Inr \<lparr>data = [None], capacity = 1, used = 0\<rparr>
     \<and> IntSet_init 1 (- 5) = IntSet_init 1 0"
  using IntSet_init_normalises_hint [of 1 "- 5"] by (auto simp: IntSet_init_outcome)

section \<open>Subset test and equality\<close>

lemma subset_loop_outcome:
  "stored this \<Longrightarrow> stored otherIntSet \<Longrightarrow> 0 \<le> index \<Longrightarrow>
   outcome (subset_loop this otherIntSet index) =
     Inr (set (drop (nat index) (elems this)) \<subseteq> set (elems otherIntSet))"
proof (induction this otherIntSet index rule: subset_loop.induct)
  case (1 this otherIntSet index)
  show ?case
  proof (cases "index < used this")
    case False
    with "1.prems" have "drop (nat index) (elems this) = []" by simp
    with False show ?thesis by (subst subset_loop.simps) simp
  next
    case True
    define i where "i = nat index"
    have i: "i < length (elems this)" using True "1.prems" by (simp add: i_def)
    have r: "rd this index = (Inr (Some (elems this ! i)), [(index, used this)])"
      unfolding i_def using "1.prems"(1,3) True by (rule rd_stored)
    have n: "nat (index + 1) = Suc i" using "1.prems" by (simp add: i_def)
    have d: "drop i (elems this) = elems this ! i # drop (Suc i) (elems this)"
      using i by (simp add: Cons_nth_drop_Suc)
    have c: "outcome (contains otherIntSet (elems this ! i)) = Inr (elems this ! i \<in> set (elems otherIntSet))"
      using "1.prems"(2) by (rule contains_outcome)
    show ?thesis
    proof (cases "elems this ! i \<in> set (elems otherIntSet)")
      case False
      with \<open>index < used this\<close> show ?thesis
        by (subst subset_loop.simps) (simp add: r val_def d c outcome_then_do flip: i_def)
    next
      case isin: True
      have "outcome (subset_loop this otherIntSet (index + 1)) =
          Inr (set (drop (Suc i) (elems this)) \<subseteq> set (elems otherIntSet))"
        using "1.IH"[OF True, of True] "1.prems" n
        by simp
      with isin \<open>index < used this\<close> show ?thesis
        by (subst subset_loop.simps) (simp add: r val_def d c outcome_then_do flip: i_def)
    qed
  qed
qed

lemma isSubsetOf_outcome:
  assumes "stored this" "stored otherIntSet"
  shows "outcome (isSubsetOf this otherIntSet) = Inr (set (elems this) \<subseteq> set (elems otherIntSet))"
proof (cases "used this = 0")
  case True
  then have "elems this = []" by (simp add: elems_def)
  with True show ?thesis by (simp add: isSubsetOf_def isEmpty_def)
next
  case False
  then show ?thesis
    using subset_loop_outcome[OF assms, of 0] by (simp add: isSubsetOf_def isEmpty_def)
qed

lemma equals_outcome:
  assumes "stored is1" "stored is2"
  shows "outcome (equals is1 is2) = Inr (set (elems is1) = set (elems is2))"
proof (cases "isEmpty is1 \<and> isEmpty is2")
  case True
  then have "elems is1 = []" "elems is2 = []" by (simp_all add: elems_def isEmpty_def)
  with True show ?thesis by (simp add: equals_def)
next
  case False
  then show ?thesis
    using isSubsetOf_outcome[OF assms] isSubsetOf_outcome[OF assms(2,1)]
    by (auto simp: equals_def outcome_then_do)
qed

lemma prefix_only_subset_loop:
  "0 \<le> index \<Longrightarrow> prefix_only (reads (subset_loop this otherIntSet index))"
proof (induction this otherIntSet index rule: subset_loop.induct)
  case (1 this otherIntSet index)
  show ?case
  proof (cases "index < used this")
    case False
    then show ?thesis by (subst subset_loop.simps) simp
  next
    case True
    have IH: "prefix_only (reads (subset_loop this otherIntSet (index + 1)))"
      using "1.IH"[OF True, of True] "1.prems" by simp
    show ?thesis
      apply (subst subset_loop.simps)
      using True "1.prems" IH
      by (auto intro!: prefix_only_then_do prefix_only_rd prefix_only_contains)
  qed
qed

lemma prefix_only_isSubsetOf: "prefix_only (reads (isSubsetOf this otherIntSet))"
  by (simp add: isSubsetOf_def prefix_only_subset_loop)

lemma prefix_only_equals: "prefix_only (reads (equals is1 is2))"
  unfolding equals_def
  by (auto intro!: prefix_only_then_do prefix_only_isSubsetOf)

text \<open>None of the queries looks at the member \<^verbatim>\<open>capacity\<close>.\<close>

lemma rd_capacity [simp]: "rd (s\<lparr>capacity := c\<rparr>) i = rd s i"
  by (simp add: rd_def)

lemma contains_loop_capacity:
  "contains_loop (s\<lparr>capacity := c\<rparr>) anInt index = contains_loop s anInt index"
proof (induction s anInt index rule: contains_loop.induct)
  case (1 s anInt index)
  show ?case
  proof (cases "index < used s")
    case False
    then show ?thesis
      by (simp add: contains_loop.simps[of s anInt index]
          contains_loop.simps[of "s\<lparr>capacity := c\<rparr>" anInt index])
  next
    case True
    have IH: "contains_loop (s\<lparr>capacity := c\<rparr>) anInt (index + 1) = contains_loop s anInt (index + 1)"
      using "1.IH"[OF True, of "anInt + 1"] by simp
    show ?thesis
      by (simp add: contains_loop.simps[of s anInt index]
          contains_loop.simps[of "s\<lparr>capacity := c\<rparr>" anInt index] IH cong: if_cong)
  qed
qed

lemma contains_capacity [simp]: "contains (s\<lparr>capacity := c\<rparr>) anInt = contains s anInt"
  by (simp add: contains_def contains_loop_capacity)

lemma subset_loop_capacity:
  "subset_loop (this\<lparr>capacity := c\<rparr>) (otherIntSet\<lparr>capacity := c'\<rparr>) index =
   subset_loop this otherIntSet index"
proof (induction this otherIntSet index rule: subset_loop.induct)
  case (1 this otherIntSet index)
  show ?case
  proof (cases "index < used this")
    case False
    then show ?thesis
      by (simp add: subset_loop.simps[of this otherIntSet index]
          subset_loop.simps[of "this\<lparr>capacity := c\<rparr>" "otherIntSet\<lparr>capacity := c'\<rparr>" index])
  next
    case True
    have IH: "subset_loop (this\<lparr>capacity := c\<rparr>) (otherIntSet\<lparr>capacity := c'\<rparr>) (index + 1) =
        subset_loop this otherIntSet (index + 1)"
      using "1.IH"[OF True, of True] by simp
    show ?thesis
      by (simp add: subset_loop.simps[of this otherIntSet index]
          subset_loop.simps[of "this\<lparr>capacity := c\<rparr>" "otherIntSet\<lparr>capacity := c'\<rparr>" index]
          IH cong: if_cong)
  qed
qed

lemma isSubsetOf_capacity:
  "isSubsetOf (this\<lparr>capacity := c\<rparr>) (otherIntSet\<lparr>capacity := c'\<rparr>) = isSubsetOf this otherIntSet"
  by (simp add: isSubsetOf_def isEmpty_def subset_loop_capacity)

lemma equals_capacity:
  "equals (is1\<lparr>capacity := c\<rparr>) (is2\<lparr>capacity := c'\<rparr>) = equals is1 is2"
  by (simp add: equals_def isEmpty_def isSubsetOf_capacity cong: if_cong)

text \<open>
  C5. For sets whose valid prefix is stored properly, both subset tests and the equality
  test return, and the equality test returns the conjunction of the two subset tests. A
  subset test on an empty invoking set returns true, and two empty sets compare equal.
  Each subset test returns whether every valid element of its invoking set is a valid
  element of its other set.
\<close>

theorem equals_iff_mutual_subsets:
  assumes "stored A" "stored B"
  shows "\<exists>ab ba. outcome (isSubsetOf A B) = Inr ab \<and> outcome (isSubsetOf B A) = Inr ba
           \<and> outcome (equals A B) = Inr (ab \<and> ba)
           \<and> ab = (set (elems A) \<subseteq> set (elems B))
           \<and> ba = (set (elems B) \<subseteq> set (elems A))
           \<and> (isEmpty A \<longrightarrow> ab)
           \<and> (isEmpty A \<and> isEmpty B \<longrightarrow> outcome (equals A B) = Inr True)"
proof -
  have "isEmpty A \<Longrightarrow> elems A = []" "isEmpty B \<Longrightarrow> elems B = []"
    by (simp_all add: isEmpty_def elems_def)
  then show ?thesis
    using isSubsetOf_outcome[OF assms] isSubsetOf_outcome[OF assms(2,1)] equals_outcome[OF assms]
    by auto
qed

theorem equals_iff_mutual_subsets_witness:
  "stored set_123 \<and> stored set_312
   \<and> outcome (isSubsetOf set_123 set_312) = Inr True
   \<and> outcome (isSubsetOf set_312 set_123) = Inr True
   \<and> outcome (equals set_123 set_312) = Inr True"
proof -
  have st: "stored set_123" "stored set_312"
    by (simp_all add: stored_def set_123_def set_312_def)
  have "elems set_123 = [1, 2, 3]" "elems set_312 = [3, 1, 2]"
    by (simp_all add: elems_def set_123_def set_312_def)
  with equals_iff_mutual_subsets [OF st] st show ?thesis
    by auto
qed

text \<open>
  C10. Two sets with the same valid elements compare equal, whatever their capacities and
  the order of their elements; and replacing the member \<^verbatim>\<open>capacity\<close> of either operand
  by any other value leaves the run of the equality test as it is.
\<close>

theorem equals_ignores_capacity:
  assumes "stored A" "stored B" "set (elems A) = set (elems B)"
  shows "outcome (equals A B) = Inr True
         \<and> equals (A\<lparr>capacity := c\<rparr>) (B\<lparr>capacity := c'\<rparr>) = equals A B"
  using equals_outcome[OF assms(1,2)] assms(3)
  by (simp add: equals_capacity)


theorem equals_ignores_capacity_witness:
  "stored set_123 \<and> stored set_312 \<and> set (elems set_123) = set (elems set_312)
   \<and> capacity set_123 = 3 \<and> capacity set_312 = 5
   \<and> outcome (equals set_123 set_312) = Inr True
   \<and> equals (set_123\<lparr>capacity := 7\<rparr>) (set_312\<lparr>capacity := 9\<rparr>) = equals set_123 set_312"
proof -
  have st: "stored set_123" "stored set_312"
    by (simp_all add: stored_def set_123_def set_312_def)
  have e: "elems set_123 = [1, 2, 3]" "elems set_312 = [3, 1, 2]"
    by (simp_all add: elems_def set_123_def set_312_def)
  then have eq: "set (elems set_123) = set (elems set_312)"
    by auto
  have "capacity set_123 = 3" "capacity set_312 = 5"
    by (simp_all add: set_123_def set_312_def)
  with equals_ignores_capacity [OF st eq, of 7 9] st eq show ?thesis
    by simp
qed

section \<open>Reallocation and copies\<close>

lemma stored_capacity [simp]: "stored (s\<lparr>capacity := c\<rparr>) = stored s"
  by (simp add: stored_def)

lemma elems_capacity [simp]: "elems (s\<lparr>capacity := c\<rparr>) = elems s"
  by (simp add: elems_def)

text \<open>
  When the capacity that \<^verbatim>\<open>resize\<close> settles on can hold the valid elements, the new
  array starts with them and is indeterminate behind them.
\<close>

lemma resize_outcome:
  assumes "stored s"
    and r: "r = (if n \<le> 0 then dc else if n < used s then used s else n)"
    and "used s \<le> r"
  shows "outcome (resize dc s n) =
     Inr (s\<lparr>capacity := r,
            data := take (nat (used s)) (data s) @ replicate (nat r - nat (used s)) None\<rparr>)"
proof -
  define u where "u = nat (used s)"
  have u: "0 \<le> used s" "u \<le> length (data s)" "u \<le> nat r" "0 \<le> r"
    using assms(1,3) by (auto simp: stored_def u_def)
  have "outcome (copy_slots (s\<lparr>capacity := r\<rparr>) (used s) (replicate (nat r) None) 0) =
      Inr (take u (data s) @ drop u (replicate (nat r) None))"
    using copy_slots_outcome[of 0 "used s" "s\<lparr>capacity := r\<rparr>" "replicate (nat r) None"] u
    by (simp add: u_def)
  then show ?thesis
    using u r by (auto simp: resize_def new_array_ok outcome_then_do Let_def simp flip: u_def)
qed

lemma resize_Inr_D:
  assumes "outcome (resize dc s n) = Inr s'" and "stored s"
    and r: "r = (if n \<le> 0 then dc else if n < used s then used s else n)"
  shows "used s \<le> r"
proof (rule ccontr)
  assume "\<not> used s \<le> r"
  then have lt: "r < used s" by simp
  from assms(1) r obtain d d' where
    d: "outcome (new_array r) = Inr d"
    and c: "outcome (copy_slots (s\<lparr>capacity := r\<rparr>) (used s) d 0) = Inr d'"
    by (auto simp: resize_def Let_def dest!: then_do_Inr_D split: if_splits)
  from d have "0 \<le> r" "d = replicate (nat r) None"
    by (auto simp: new_array_def split: if_splits)
  with lt have "0 < used s" by simp
  from copy_slots_Inr_D[OF _ this c] have "nat (used s) \<le> length d" by simp
  with \<open>d = replicate (nat r) None\<close> lt \<open>0 \<le> r\<close> show False by simp
qed

lemma resize_overrun:
  assumes "stored s" and "0 \<le> dc" and "dc < used s" and "n \<le> 0"
  shows "\<exists>e. outcome (resize dc s n) = Inl e"
proof (cases "outcome (resize dc s n)")
  case (Inl e)
  then show ?thesis by simp
next
  case (Inr s')
  from resize_Inr_D[OF Inr assms(1) refl] assms show ?thesis by simp
qed

lemma prefix_only_resize: "prefix_only (reads (resize dc s n))"
  unfolding resize_def Let_def
  by (auto intro!: prefix_only_then_do prefix_only_copy_slots)

text \<open>The copy constructor reproduces the object when the array has \<^verbatim>\<open>capacity\<close> slots.\<close>

lemma IntSet_copy_outcome:
  assumes "length (data src) = nat (capacity src)" and "0 \<le> capacity src"
  shows "outcome (IntSet_copy src) = Inr src"
proof -
  have "outcome (copy_slots src (capacity src) (replicate (nat (capacity src)) None) 0) =
      Inr (data src)"
    using copy_slots_outcome[of 0 "capacity src" src "replicate (nat (capacity src)) None"] assms
    by simp
  then show ?thesis
    using assms by (simp add: IntSet_copy_def new_array_ok outcome_then_do)
qed

lemma IntSet_copy_reads:
  assumes "length (data src) = nat (capacity src)" and "0 \<le> capacity src"
  shows "reads (IntSet_copy src) = map (\<lambda>i. (i, used src)) [0..capacity src - 1]"
proof -
  have o: "outcome (copy_slots src (capacity src) (replicate (nat (capacity src)) None) 0) =
      Inr (data src)"
    using copy_slots_outcome[of 0 "capacity src" src "replicate (nat (capacity src)) None"] assms
    by simp
  have "reads (copy_slots src (capacity src) (replicate (nat (capacity src)) None) 0) =
      map (\<lambda>i. (i, used src)) [0..capacity src - 1]"
    using reads_copy_slots[of 0 "capacity src" src "replicate (nat (capacity src)) None"] assms
    by simp
  then show ?thesis
    using assms o by (simp add: IntSet_copy_def new_array_ok reads_then_do)
qed

lemma assign_outcome:
  assumes "stored rhs" and "length (data rhs) = nat (capacity rhs)" and "0 \<le> capacity rhs"
  shows "outcome (assign this rhs False) =
     Inr \<lparr>data = take (nat (used rhs)) (data rhs) @ replicate (nat (capacity rhs) - nat (used rhs)) None,
         capacity = capacity rhs, used = used rhs\<rparr>"
proof -
  define u where "u = nat (used rhs)"
  have u: "0 \<le> used rhs" "u \<le> length (data rhs)" "u \<le> nat (capacity rhs)" "0 \<le> capacity rhs"
    using assms by (auto simp: stored_def u_def)
  have "outcome (copy_slots rhs (used rhs) (replicate (nat (capacity rhs)) None) 0) =
      Inr (take u (data rhs) @ drop u (replicate (nat (capacity rhs)) None))"
    using copy_slots_outcome[of 0 "used rhs" rhs "replicate (nat (capacity rhs)) None"] u
    by (simp add: u_def)
  then show ?thesis
    using u by (simp add: assign_def new_array_ok outcome_then_do flip: u_def)
qed

lemma prefix_only_assign: "prefix_only (reads (assign this rhs same))"
  unfolding assign_def
  by (auto intro!: prefix_only_then_do prefix_only_copy_slots)

section \<open>Insertion\<close>

lemma append_slot:
  assumes "stored s" and "nat (used s) < length (data s)"
  shows "elems (s\<lparr>data := (data s)[nat (used s) := Some x], used := used s + 1\<rparr>) = elems s @ [x]"
    and "stored (s\<lparr>data := (data s)[nat (used s) := Some x], used := used s + 1\<rparr>)"
proof -
  define u where "u = nat (used s)"
  have u: "0 \<le> used s" "u < length (data s)" "nat (used s + 1) = Suc u"
    using assms by (auto simp: stored_def u_def)
  have t: "take (Suc u) ((data s)[u := Some x]) = take u (data s) @ [Some x]"
    using u by (simp add: take_Suc_conv_app_nth)
  show "elems (s\<lparr>data := (data s)[nat (used s) := Some x], used := used s + 1\<rparr>) = elems s @ [x]"
    using u t by (simp add: elems_def flip: u_def)
  have "None \<notin> set (take u (data s))"
    using assms(1) by (simp add: stored_def u_def)
  then show "stored (s\<lparr>data := (data s)[nat (used s) := Some x], used := used s + 1\<rparr>)"
    using u t by (simp add: stored_def flip: u_def)
qed

lemma grown_capacity_ok:
  assumes "1 \<le> c" and "3 * c div 2 + 1 \<le> INT_MAX"
  shows "grown_capacity c = ok (3 * c div 2 + 1)"
proof -
  have "0 \<le> 3 * c div 2" using assms(1) by simp
  then have "INT_MIN \<le> 3 * c div 2" by (simp add: INT_MIN_def)
  then show ?thesis
    using assms by (simp add: grown_capacity_def trunc_three_halves_def Let_def)
qed

lemma grown_capacity_Inr_D:
  "1 \<le> c \<Longrightarrow> outcome (grown_capacity c) = Inr n \<Longrightarrow> n = 3 * c div 2 + 1 \<and> n \<le> INT_MAX"
  by (auto simp: grown_capacity_def trunc_three_halves_def Let_def split: if_splits)

lemma add_present:
  "stored s \<Longrightarrow> anInt \<in> set (elems s) \<Longrightarrow> outcome (add dc s anInt) = Inr (False, s)"
  by (simp add: add_def outcome_then_do contains_outcome)

lemma add_room:
  assumes "stored s" and "anInt \<notin> set (elems s)" and "used s < capacity s"
    and "length (data s) = nat (capacity s)"
  shows "outcome (add dc s anInt) =
     Inr (True, s\<lparr>data := (data s)[nat (used s) := Some anInt], used := used s + 1\<rparr>)"
proof -
  have "0 \<le> used s" "nat (used s) < length (data s)"
    using assms by (auto simp: stored_def)
  then have "wr (data s) (used s) (Some anInt) = ok ((data s)[nat (used s) := Some anInt])"
    by (rule wr_inside)
  then show ?thesis
    using assms by (simp add: add_def outcome_then_do contains_outcome)
qed

lemma add_full:
  assumes "stored s" and "anInt \<notin> set (elems s)" and "used s = capacity s"
    and "1 \<le> capacity s" and n: "n = 3 * capacity s div 2 + 1" and "n \<le> INT_MAX"
  shows "outcome (add dc s anInt) =
     Inr (True, s\<lparr>capacity := n,
                  data := (take (nat (used s)) (data s) @ replicate (nat n - nat (used s)) None)
                            [nat (used s) := Some anInt],
                  used := used s + 1\<rparr>)"
proof -
  define s1 where "s1 = s\<lparr>capacity := n,
      data := take (nat (used s)) (data s) @ replicate (nat n - nat (used s)) None\<rparr>"
  have gt: "used s < n" "0 < n"
    using assms(3,4) n by linarith+
  then have "n = (if n \<le> 0 then dc else if n < used s then used s else n)" "used s \<le> n"
    by simp_all
  from resize_outcome[OF assms(1) this] have r: "outcome (resize dc s n) = Inr s1"
    by (simp add: s1_def)
  have g: "grown_capacity (capacity s) = ok n"
    using grown_capacity_ok assms(4,6) n by simp
  have "nat (used s) \<le> length (data s)" "0 \<le> used s"
    using assms(1) by (simp_all add: stored_def)
  then have "0 \<le> used s1" "nat (used s1) < length (data s1)"
    using gt by (auto simp: s1_def)
  then have "wr (data s1) (used s1) (Some anInt) = ok ((data s1)[nat (used s1) := Some anInt])"
    by (rule wr_inside)
  then have "outcome (add dc s anInt) =
      Inr (True, s1\<lparr>data := (data s1)[nat (used s1) := Some anInt], used := used s1 + 1\<rparr>)"
    using assms(1,2,3) g r by (simp add: add_def outcome_then_do contains_outcome)
  then show ?thesis
    by (simp add: s1_def)
qed

lemma stored_resized:
  assumes "stored s" and "used s \<le> n"
  shows "stored (s\<lparr>capacity := n,
      data := take (nat (used s)) (data s) @ replicate (nat n - nat (used s)) None\<rparr>)"
    and "elems (s\<lparr>capacity := n,
      data := take (nat (used s)) (data s) @ replicate (nat n - nat (used s)) None\<rparr>) = elems s"
  using assms by (auto simp: stored_def elems_def)

lemma prefix_only_add: "prefix_only (reads (add dc s anInt))"
  unfolding add_def
  by (auto intro!: prefix_only_then_do prefix_only_contains prefix_only_resize
      simp: grown_capacity_def Let_def)

lemma valid_stored: "valid s \<Longrightarrow> stored s"
  by (simp add: valid_def)

lemma valid_used_le: "valid s \<Longrightarrow> used s \<le> capacity s"
  by (auto simp: valid_def stored_def)

lemma add_valid:
  assumes "valid s" and "outcome (add dc s anInt) = Inr (b, s')"
  shows "valid s'"
proof (cases "anInt \<in> set (elems s)")
  case True
  with add_present[OF valid_stored[OF assms(1)] True, of dc] assms show ?thesis by simp
next
  case False
  note st = valid_stored[OF assms(1)]
  have v: "length (data s) = nat (capacity s)" "1 \<le> capacity s" "distinct (elems s)"
    using assms(1) by (simp_all add: valid_def)
  show ?thesis
  proof (cases "used s < capacity s")
    case True
    then have lt: "nat (used s) < length (data s)"
      using v st by (auto simp: stored_def)
    from add_room[OF st False True v(1), of dc] assms(2)
    have s': "s' = s\<lparr>data := (data s)[nat (used s) := Some anInt], used := used s + 1\<rparr>"
      by simp
    show ?thesis
      unfolding s' valid_def using append_slot[OF st lt, of anInt] v False by simp
  next
    case full: False
    with valid_used_le[OF assms(1)] have eq: "used s = capacity s" by simp
    from assms(2) st False eq obtain n where g: "outcome (grown_capacity (capacity s)) = Inr n"
      by (auto simp: add_def outcome_then_do contains_outcome split: sum.splits)
    from grown_capacity_Inr_D[OF v(2) g] have n: "n = 3 * capacity s div 2 + 1" "n \<le> INT_MAX"
      by simp_all
    define s1 where "s1 = s\<lparr>capacity := n,
      data := take (nat (used s)) (data s) @ replicate (nat n - nat (used s)) None\<rparr>"
    have gt: "used s < n" "0 < n" "0 \<le> used s"
      using eq v(2) n(1) by linarith+
    have st1: "stored s1" and e1: "elems s1 = elems s"
      unfolding s1_def using stored_resized[OF st, of n] gt by simp_all
    have lt: "nat (used s1) < length (data s1)"
      using gt st by (auto simp: s1_def stored_def)
    from add_full[OF st False eq v(2) n] assms(2)
    have s': "s' = s1\<lparr>data := (data s1)[nat (used s1) := Some anInt], used := used s1 + 1\<rparr>"
      by (simp add: s1_def)
    have "length (data s1) = nat (capacity s1)" "1 \<le> capacity s1"
      using gt st by (auto simp: s1_def stored_def)
    then show ?thesis
      unfolding s' valid_def using append_slot[OF st1 lt, of anInt] v False e1 by simp
  qed
qed

lemma elems_full_set: "elems (full_set n) = map int [0..<n]"
  by (simp add: elems_def full_set_def comp_def)

lemma valid_full_set: "1 \<le> n \<Longrightarrow> valid (full_set n)"
proof -
  assume n: "1 \<le> n"
  have "stored (full_set n)"
    by (auto simp: stored_def full_set_def)
  moreover have "distinct (elems (full_set n))"
    by (simp add: elems_full_set distinct_map inj_on_def)
  moreover have "length (data (full_set n)) = nat (capacity (full_set n))" "1 \<le> capacity (full_set n)"
    using n by (simp_all add: full_set_def)
  ultimately show ?thesis
    by (simp add: valid_def)
qed

lemma grown_capacity_overflow:
  assumes "0 \<le> c" and "INT_MAX \<le> 3 * c div 2"
  shows "grown_capacity c = abort IntOverflow"
  using assms by (simp add: grown_capacity_def trunc_three_halves_def Let_def)

lemma add_full_overflow:
  assumes "stored s" and "anInt \<notin> set (elems s)" and "capacity s \<le> used s"
    and "0 \<le> capacity s" and "INT_MAX \<le> 3 * capacity s div 2"
  shows "outcome (add dc s anInt) = Inl IntOverflow"
  using assms grown_capacity_overflow[OF assms(4,5)]
  by (simp add: add_def outcome_then_do contains_outcome)

text \<open>
  C3, as the claim has it, fails for the largest capacities. The set that holds the
  1431655765 values 0, 1, 2, ... in an array that is full does not contain -1, and
  three halves of its capacity, truncated, is 2147483647, the largest \<^verbatim>\<open>int\<close>: the
  growth expression of \<^verbatim>\<open>add\<close> leaves the range of \<^verbatim>\<open>int\<close>, and \<^verbatim>\<open>add\<close> returns
  neither true nor a grown set.
\<close>

theorem add_overflows_at_large_capacity:
  "valid (full_set 1431655765)
   \<and> used (full_set 1431655765) = capacity (full_set 1431655765)
   \<and> capacity (full_set 1431655765) = 1431655765
   \<and> trunc_three_halves (capacity (full_set 1431655765)) = INT_MAX
   \<and> outcome (contains (full_set 1431655765) (- 1)) = Inr False
   \<and> outcome (add 1 (full_set 1431655765) (- 1)) = Inl IntOverflow"
proof -
  have v: "valid (full_set 1431655765)"
    by (rule valid_full_set) simp
  have c: "capacity (full_set 1431655765) = 1431655765" "used (full_set 1431655765) = 1431655765"
    by (simp_all add: full_set_def)
  have e: "- 1 \<notin> set (elems (full_set 1431655765))"
    unfolding elems_full_set by auto
  have t: "trunc_three_halves (capacity (full_set 1431655765)) = INT_MAX"
    by (simp add: c trunc_three_halves_def INT_MAX_def)
  have "outcome (add 1 (full_set 1431655765) (- 1)) = Inl IntOverflow"
    using valid_stored[OF v] e by (rule add_full_overflow) (simp_all add: c INT_MAX_def)
  moreover have "outcome (contains (full_set 1431655765) (- 1)) = Inr False"
    using contains_outcome[OF valid_stored[OF v], of "- 1"] e by simp
  ultimately show ?thesis
    using v c t by simp
qed

text \<open>
  C3, amended. Let \<open>A\<close> satisfy the class invariant. \<^verbatim>\<open>contains\<close> returns whether \<open>x\<close>
  is among the valid elements. If it returns true, \<^verbatim>\<open>add\<close> returns false and the
  object is as before. If it returns false, and, in case the array is full, the grown
  capacity \<open>3 * capacity div 2 + 1\<close> is still an \<^verbatim>\<open>int\<close> (a capacity of at most
  1431655764), then \<^verbatim>\<open>add\<close> returns true, \<open>x\<close> is in the slot at the old
  \<^verbatim>\<open>used\<close>, the valid elements are the old ones followed by \<open>x\<close>, \<^verbatim>\<open>used\<close> is one
  more, and \<^verbatim>\<open>capacity\<close> is \<open>3 * capacity div 2 + 1\<close> if the array was full and
  unchanged otherwise.
\<close>

theorem add_appends_and_grows:
  assumes "valid A"
  shows "outcome (contains A x) = Inr (x \<in> set (elems A))
       \<and> (outcome (contains A x) = Inr True \<longrightarrow> outcome (add dc A x) = Inr (False, A))
       \<and> (outcome (contains A x) = Inr False \<longrightarrow>
            (used A = capacity A \<longrightarrow> 3 * capacity A div 2 + 1 \<le> INT_MAX) \<longrightarrow>
            (\<exists>A'. outcome (add dc A x) = Inr (True, A')
                 \<and> data A' ! nat (used A) = Some x
                 \<and> elems A' = elems A @ [x]
                 \<and> used A' = used A + 1
                 \<and> capacity A' =
                     (if used A = capacity A then 3 * capacity A div 2 + 1 else capacity A)))"
proof -
  note st = valid_stored[OF assms]
  have v: "length (data A) = nat (capacity A)" "1 \<le> capacity A"
    using assms by (simp_all add: valid_def)
  have c: "outcome (contains A x) = Inr (x \<in> set (elems A))"
    using st by (rule contains_outcome)
  have p: "x \<in> set (elems A) \<Longrightarrow> outcome (add dc A x) = Inr (False, A)"
    using st by (rule add_present)
  have r: "\<exists>A'. outcome (add dc A x) = Inr (True, A')
                 \<and> data A' ! nat (used A) = Some x
                 \<and> elems A' = elems A @ [x]
                 \<and> used A' = used A + 1
                 \<and> capacity A' =
                     (if used A = capacity A then 3 * capacity A div 2 + 1 else capacity A)"
    if absent: "x \<notin> set (elems A)"
      and fits: "used A = capacity A \<longrightarrow> 3 * capacity A div 2 + 1 \<le> INT_MAX"
  proof (cases "used A < capacity A")
    case True
    then have lt: "nat (used A) < length (data A)"
      using v st by (auto simp: stored_def)
    show ?thesis
      using add_room[OF st absent True v(1), of dc] append_slot(1)[OF st lt, of x] lt True
      by simp
  next
    case False
    with valid_used_le[OF assms] have eq: "used A = capacity A" by simp
    define n where "n = 3 * capacity A div 2 + 1"
    define A1 where "A1 = A\<lparr>capacity := n,
      data := take (nat (used A)) (data A) @ replicate (nat n - nat (used A)) None\<rparr>"
    have gt: "used A < n" "0 < n" "0 \<le> used A"
      using eq v(2) by (simp_all add: n_def)
    have st1: "stored A1" and e1: "elems A1 = elems A"
      unfolding A1_def using stored_resized[OF st, of n] gt by simp_all
    have lt: "nat (used A1) < length (data A1)"
      using gt st by (auto simp: A1_def stored_def)
    have "outcome (add dc A x) =
        Inr (True, A1\<lparr>data := (data A1)[nat (used A1) := Some x], used := used A1 + 1\<rparr>)"
      using add_full[OF st absent eq v(2) n_def] fits eq by (simp add: A1_def n_def)
    moreover have "used A1 = used A" "capacity A1 = n"
      by (simp_all add: A1_def)
    ultimately show ?thesis
      using append_slot(1)[OF st1 lt, of x] lt e1 eq by (simp add: n_def)
  qed
  show ?thesis
    using c p r by auto
qed

theorem add_appends_and_grows_witness:
  "valid set_123 \<and> outcome (contains set_123 4) = Inr False
   \<and> used set_123 = capacity set_123 \<and> 3 * capacity set_123 div 2 + 1 \<le> INT_MAX
   \<and> (\<exists>A'. outcome (add 1 set_123 4) = Inr (True, A') \<and> data A' ! 3 = Some 4
           \<and> elems A' = [1, 2, 3, 4] \<and> used A' = 4 \<and> capacity A' = 5)
   \<and> outcome (contains set_123 2) = Inr True
   \<and> outcome (add 1 set_123 2) = Inr (False, set_123)"
proof -
  have v: "valid set_123"
    by (simp add: valid_def stored_def elems_def set_123_def)
  have e: "elems set_123 = [1, 2, 3]" and u: "used set_123 = 3" "capacity set_123 = 3"
    by (simp_all add: elems_def set_123_def)
  have i: "(3::int) * 3 div 2 + 1 \<le> INT_MAX"
    by (simp add: INT_MAX_def)
  show ?thesis
    using add_appends_and_grows [OF v, of 4 1] add_appends_and_grows [OF v, of 2 1] v e u i
    by simp
qed

section \<open>Removal\<close>

lemma shift_left_outcome:
  "0 \<le> index2 \<Longrightarrow> index2 < used s \<Longrightarrow> nat (used s) \<le> length (data s) \<Longrightarrow>
   outcome (shift_left s index2) =
     Inr (s\<lparr>data := take (nat index2) (data s)
                     @ drop (Suc (nat index2)) (take (nat (used s)) (data s))
                     @ drop (nat (used s) - 1) (data s)\<rparr>)"
proof (induction s index2 rule: shift_left.induct)
  case (1 s index2)
  define i where "i = nat index2"
  define u where "u = nat (used s)"
  define d where "d = data s"
  have iu: "i < u" "u \<le> length d" "0 < u"
    using "1.prems" by (auto simp: i_def u_def d_def)
  show ?case
  proof (cases "index2 < used s - 1")
    case False
    with "1.prems" have "Suc i = u"
      by (simp add: i_def u_def)
    then have "take i d @ drop (Suc i) (take u d) @ drop (u - 1) d = d"
      using iu by (simp flip: \<open>Suc i = u\<close>)
    with False show ?thesis
      by (subst shift_left.simps) (simp flip: i_def u_def d_def)
  next
    case True
    then have lt: "Suc i < u"
      using "1.prems" by (simp add: i_def u_def)
    define d' where "d' = d[i := d ! Suc i]"
    have n: "nat (index2 + 1) = Suc i" using "1.prems" by (simp add: i_def)
    have "0 \<le> index2 + 1" "nat (index2 + 1) < length (data s)"
      using "1.prems" lt iu n by (simp_all add: d_def)
    then have "rd s (index2 + 1) = (Inr (data s ! nat (index2 + 1)), [(index2 + 1, used s)])"
      by (rule rd_inside)
    then have r: "rd s (index2 + 1) = (Inr (d ! Suc i), [(index2 + 1, used s)])"
      by (simp add: n d_def)
    have "nat index2 < length (data s)"
      using iu by (simp add: i_def d_def)
    with "1.prems"(1) have "wr (data s) index2 (d ! Suc i) = ok ((data s)[nat index2 := d ! Suc i])"
      by (rule wr_inside)
    then have w: "wr d index2 (d ! Suc i) = ok d'"
      by (simp add: d'_def d_def i_def)
    have IH: "outcome (shift_left (s\<lparr>data := d'\<rparr>) (index2 + 1)) =
        Inr (s\<lparr>data := take (Suc i) d' @ drop (Suc (Suc i)) (take u d') @ drop (u - 1) d'\<rparr>)"
      using "1.IH"[OF True, of d'] "1.prems" True n iu
      by (simp add: d'_def flip: u_def d_def)
    have a: "take (Suc i) d' = take i d @ [d ! Suc i]"
      using iu lt by (simp add: d'_def take_Suc_conv_app_nth)
    have b: "drop (Suc (Suc i)) (take u d') = drop (Suc (Suc i)) (take u d)"
      by (simp add: d'_def drop_take)
    have c: "drop (u - Suc 0) d' = drop (u - Suc 0) d"
      using lt by (simp add: d'_def)
    have e: "drop (Suc i) (take u d) = d ! Suc i # drop (Suc (Suc i)) (take u d)"
      using iu lt Cons_nth_drop_Suc[of "Suc i" "take u d", symmetric] by simp
    show ?thesis
      using True
      by (subst shift_left.simps) (simp add: r w IH a b c e flip: i_def u_def d_def)
  qed
qed

lemma remove1_at:
  "j < length xs \<Longrightarrow> xs ! j = x \<Longrightarrow> x \<notin> set (take j xs) \<Longrightarrow>
   remove1 x xs = take j xs @ drop (Suc j) xs"
proof -
  assume a: "j < length xs" "xs ! j = x" "x \<notin> set (take j xs)"
  then have "xs = take j xs @ x # drop (Suc j) xs"
    by (metis id_take_nth_drop)
  then have "remove1 x xs = remove1 x (take j xs @ x # drop (Suc j) xs)"
    by simp
  also have "\<dots> = take j xs @ drop (Suc j) xs"
    using a(3) by (simp add: remove1_append)
  finally show ?thesis .
qed

text \<open>The object that \<^verbatim>\<open>remove\<close> leaves when it finds the value at position \<open>j\<close>.\<close>

lemma closed_gap:
  assumes "stored s" and "j < nat (used s)"
  defines "s' \<equiv> s\<lparr>data := take j (data s) @ drop (Suc j) (take (nat (used s)) (data s))
                         @ drop (nat (used s) - 1) (data s),
                  used := used s - 1\<rparr>"
  shows "elems s' = take j (elems s) @ drop (Suc j) (elems s)"
    and "stored s'"
    and "length (data s') = length (data s)"
proof -
  define u where "u = nat (used s)"
  define d where "d = data s"
  have u: "j < u" "u \<le> length d" "nat (used s - 1) = u - 1" "0 \<le> used s - 1"
    using assms(1,2) by (auto simp: stored_def u_def d_def)
  have l: "length (take j d @ drop (Suc j) (take u d)) = u - 1"
    using u by simp
  then have t: "take (u - 1) (take j d @ drop (Suc j) (take u d) @ drop (u - 1) d) =
      take j d @ drop (Suc j) (take u d)"
    by (metis append.assoc append_eq_conv_conj)
  have "take j d = take j (take u d)"
    using u by simp
  then show "elems s' = take j (elems s) @ drop (Suc j) (elems s)"
    using u t by (simp add: s'_def elems_def take_map drop_map flip: u_def d_def)
  have "set (take j d) \<subseteq> set (take u d)"
    using u by (intro set_take_subset_set_take) simp
  moreover have "set (drop (Suc j) (take u d)) \<subseteq> set (take u d)"
    by (rule set_drop_subset)
  ultimately have "set (take j d @ drop (Suc j) (take u d)) \<subseteq> set (take u d)"
    by simp
  moreover have "None \<notin> set (take u d)"
    using assms(1) by (simp add: stored_def u_def d_def)
  ultimately have "None \<notin> set (take j d @ drop (Suc j) (take u d))"
    by blast
  then show "stored s'"
    using u t by (simp add: s'_def stored_def flip: u_def d_def)
  show "length (data s') = length (data s)"
    using u by (simp add: s'_def flip: u_def d_def)
qed

lemma remove_loop_outcome:
  "stored s \<Longrightarrow> 0 \<le> index \<Longrightarrow> anInt \<in> set (drop (nat index) (elems s)) \<Longrightarrow>
   anInt \<notin> set (take (nat index) (elems s)) \<Longrightarrow>
   \<exists>j < nat (used s). elems s ! j = anInt \<and> anInt \<notin> set (take j (elems s)) \<and>
     outcome (remove_loop s anInt index) =
       Inr (True, s\<lparr>data := take j (data s) @ drop (Suc j) (take (nat (used s)) (data s))
                               @ drop (nat (used s) - 1) (data s),
                     used := used s - 1\<rparr>)"
proof (induction s anInt index rule: remove_loop.induct)
  case (1 s anInt index)
  define i where "i = nat index"
  have i: "i < length (elems s)"
    using "1.prems"(3) by (cases "i < length (elems s)") (simp_all add: i_def)
  then have lt: "index < used s" and iu: "i < nat (used s)"
    using "1.prems"(1,2) by (simp_all add: i_def)
  have le: "nat (used s) \<le> length (data s)"
    using "1.prems"(1) by (simp add: stored_def)
  have r: "rd s index = (Inr (Some (elems s ! i)), [(index, used s)])"
    unfolding i_def using "1.prems"(1,2) lt by (rule rd_stored)
  have n: "nat (index + 1) = Suc i" using "1.prems"(2) by (simp add: i_def)
  have d: "drop i (elems s) = elems s ! i # drop (Suc i) (elems s)"
    using i by (simp add: Cons_nth_drop_Suc)
  show ?case
  proof (cases "elems s ! i = anInt")
    case True
    have "outcome (remove_loop s anInt index) =
       Inr (True, s\<lparr>data := take i (data s) @ drop (Suc i) (take (nat (used s)) (data s))
                               @ drop (nat (used s) - 1) (data s),
                     used := used s - 1\<rparr>)"
      using True lt shift_left_outcome[OF "1.prems"(2) lt le]
      by (subst remove_loop.simps) (simp add: r val_def outcome_then_do flip: i_def)
    with True iu "1.prems"(4) show ?thesis
      unfolding i_def[symmetric] by blast
  next
    case False
    have "anInt \<in> set (drop (nat (index + 1)) (elems s))"
      using "1.prems"(3) False d by (simp add: n flip: i_def)
    moreover have "anInt \<notin> set (take (nat (index + 1)) (elems s))"
      using "1.prems"(4) False i by (simp add: n take_Suc_conv_app_nth flip: i_def)
    ultimately obtain j where j: "j < nat (used s)" "elems s ! j = anInt"
      "anInt \<notin> set (take j (elems s))"
      "outcome (remove_loop s anInt (index + 1)) =
         Inr (True, s\<lparr>data := take j (data s) @ drop (Suc j) (take (nat (used s)) (data s))
                               @ drop (nat (used s) - 1) (data s),
                     used := used s - 1\<rparr>)"
      using "1.IH"[OF lt, of "elems s ! i"] False "1.prems"(1,2) by auto
    have "outcome (remove_loop s anInt index) = outcome (remove_loop s anInt (index + 1))"
      using False lt by (subst remove_loop.simps) (simp add: r val_def flip: i_def)
    with j show ?thesis by auto
  qed
qed

lemma remove_absent:
  "stored s \<Longrightarrow> anInt \<notin> set (elems s) \<Longrightarrow> outcome (remove s anInt) = Inr (False, s)"
  by (simp add: remove_def outcome_then_do contains_outcome)

lemma remove_present:
  assumes "stored s" and "anInt \<in> set (elems s)"
  shows "\<exists>s'. outcome (remove s anInt) = Inr (True, s') \<and> elems s' = remove1 anInt (elems s)
           \<and> stored s' \<and> used s' = used s - 1 \<and> capacity s' = capacity s
           \<and> length (data s') = length (data s)"
proof -
  from remove_loop_outcome[OF assms(1), of 0 anInt] assms(2)
  obtain j where j: "j < nat (used s)" "elems s ! j = anInt" "anInt \<notin> set (take j (elems s))"
    "outcome (remove_loop s anInt 0) =
       Inr (True, s\<lparr>data := take j (data s) @ drop (Suc j) (take (nat (used s)) (data s))
                               @ drop (nat (used s) - 1) (data s),
                     used := used s - 1\<rparr>)"
    by auto
  have "j < length (elems s)"
    using j(1) assms(1) by simp
  from remove1_at[OF this j(2,3)] closed_gap[OF assms(1) j(1)] j(4) assms show ?thesis
    by (simp add: remove_def outcome_then_do contains_outcome)
qed

lemma remove_valid:
  assumes "valid s" and "outcome (remove s anInt) = Inr (b, s')"
  shows "valid s'"
proof (cases "anInt \<in> set (elems s)")
  case False
  with remove_absent[OF valid_stored[OF assms(1)] False] assms show ?thesis by simp
next
  case True
  from remove_present[OF valid_stored[OF assms(1)] True] assms(2)
  have "elems s' = remove1 anInt (elems s)" "stored s'" "capacity s' = capacity s"
    "length (data s') = length (data s)"
    by auto
  with assms(1) show ?thesis
    by (simp add: valid_def)
qed

lemma prefix_only_shift_left:
  "0 \<le> index2 \<Longrightarrow> prefix_only (reads (shift_left s index2))"
proof (induction s index2 rule: shift_left.induct)
  case (1 s index2)
  show ?case
  proof (cases "index2 < used s - 1")
    case False
    then show ?thesis by (subst shift_left.simps) simp
  next
    case True
    have IH: "\<And>d. prefix_only (reads (shift_left (s\<lparr>data := d\<rparr>) (index2 + 1)))"
      using "1.IH"[OF True] "1.prems" by simp
    show ?thesis
      apply (subst shift_left.simps)
      using True "1.prems" IH
      by (auto intro!: prefix_only_then_do prefix_only_rd)
  qed
qed

lemma prefix_only_remove_loop:
  "0 \<le> index \<Longrightarrow> prefix_only (reads (remove_loop s anInt index))"
proof (induction s anInt index rule: remove_loop.induct)
  case (1 s anInt index)
  show ?case
  proof (cases "index < used s")
    case False
    then show ?thesis by (subst remove_loop.simps) simp
  next
    case True
    have IH: "prefix_only (reads (remove_loop s anInt (index + 1)))"
      using "1.IH"[OF True, of "anInt + 1"] "1.prems" by simp
    show ?thesis
      apply (subst remove_loop.simps)
      using True "1.prems" IH
      by (auto intro!: prefix_only_then_do prefix_only_rd prefix_only_shift_left)
  qed
qed

lemma prefix_only_remove: "prefix_only (reads (remove s anInt))"
  unfolding remove_def
  by (auto intro!: prefix_only_then_do prefix_only_contains prefix_only_remove_loop)

section \<open>The dump\<close>

lemma dump_loop_outcome:
  "stored s \<Longrightarrow> 0 \<le> i \<Longrightarrow>
   outcome (dump_loop s out i) =
     Inr (out @ concat (map (\<lambda>v. ''  '' @ show_int v) (drop (nat i) (elems s))))"
proof (induction s out i rule: dump_loop.induct)
  case (1 s out i)
  show ?case
  proof (cases "i < used s")
    case False
    with "1.prems" have "drop (nat i) (elems s) = []" by simp
    with False show ?thesis by (subst dump_loop.simps) simp
  next
    case True
    define k where "k = nat i"
    have k: "k < length (elems s)" using True "1.prems" by (simp add: k_def)
    have r: "rd s i = (Inr (Some (elems s ! k)), [(i, used s)])"
      unfolding k_def using "1.prems" True by (rule rd_stored)
    have n: "nat (i + 1) = Suc k" using "1.prems" by (simp add: k_def)
    have d: "drop k (elems s) = elems s ! k # drop (Suc k) (elems s)"
      using k by (simp add: Cons_nth_drop_Suc)
    have "outcome (dump_loop s (out @ ''  '' @ show_int (elems s ! k)) (i + 1)) =
        Inr ((out @ ''  '' @ show_int (elems s ! k))
             @ concat (map (\<lambda>v. ''  '' @ show_int v) (drop (Suc k) (elems s))))"
      using "1.IH"[OF True] "1.prems" n by simp
    with True show ?thesis
      by (subst dump_loop.simps) (simp add: r val_def d flip: k_def)
  qed
qed

lemma DumpData_outcome:
  assumes "stored s"
  shows "outcome (DumpData s out) =
     Inr (out @ (case elems s of [] \<Rightarrow> []
                 | v # vs \<Rightarrow> show_int v @ concat (map (\<lambda>v. ''  '' @ show_int v) vs)))"
proof (cases "used s > 0")
  case False
  with assms have "elems s = []" by (simp add: stored_def elems_def)
  with False show ?thesis by (simp add: DumpData_def)
next
  case True
  then have l: "0 < length (elems s)" using assms by simp
  then obtain v vs where e: "elems s = v # vs" by (cases "elems s") auto
  have r: "rd s 0 = (Inr (Some (elems s ! nat 0)), [(0, used s)])"
    using assms _ True by (rule rd_stored) simp
  have "outcome (dump_loop s (out @ show_int v) 1) =
      Inr ((out @ show_int v) @ concat (map (\<lambda>v. ''  '' @ show_int v) (drop (nat 1) (elems s))))"
    using assms by (rule dump_loop_outcome) simp
  with True e r show ?thesis
    by (simp add: DumpData_def val_def)
qed

lemma prefix_only_dump_loop:
  "0 \<le> i \<Longrightarrow> prefix_only (reads (dump_loop s out i))"
proof (induction s out i rule: dump_loop.induct)
  case (1 s out i)
  show ?case
  proof (cases "i < used s")
    case False
    then show ?thesis by (subst dump_loop.simps) simp
  next
    case True
    have IH: "\<And>v. prefix_only (reads (dump_loop s (out @ ''  '' @ show_int v) (i + 1)))"
      using "1.IH"[OF True] "1.prems" by simp
    show ?thesis
      apply (subst dump_loop.simps)
      using True "1.prems" IH
      by (auto intro!: prefix_only_then_do prefix_only_rd)
  qed
qed

lemma prefix_only_DumpData: "prefix_only (reads (DumpData s out))"
  unfolding DumpData_def
  by (auto intro!: prefix_only_then_do prefix_only_rd prefix_only_dump_loop)

lemma show_int_digit: "0 \<le> i \<Longrightarrow> i < 10 \<Longrightarrow> show_int i = [digit_char (nat i)]"
  by (simp add: show_int_def show_nat.simps)

text \<open>
  C7. Let \<open>A\<close> satisfy the class invariant. If \<^verbatim>\<open>contains\<close> returns false, \<^verbatim>\<open>remove\<close>
  returns false and the object is as before. If \<^verbatim>\<open>contains\<close> returns true,
  \<^verbatim>\<open>remove\<close> returns true; the valid elements were \<open>xs\<close>, then \<open>x\<close>, then \<open>ys\<close>, and are
  now \<open>xs\<close> followed by \<open>ys\<close>; \<^verbatim>\<open>used\<close> is one less and \<^verbatim>\<open>capacity\<close> is unchanged.
  From the order 1, 2, 3, removing 1 and adding 1 again gives the order 2, 3, 1, which
  the dump prints as \<^verbatim>\<open>2  3  1\<close>.
\<close>

theorem remove_closes_gap:
  assumes "valid A"
  shows "(outcome (contains A x) = Inr False \<longrightarrow> outcome (remove A x) = Inr (False, A))
       \<and> (outcome (contains A x) = Inr True \<longrightarrow>
            (\<exists>A' xs ys. outcome (remove A x) = Inr (True, A')
                 \<and> elems A = xs @ x # ys \<and> x \<notin> set xs \<and> x \<notin> set ys
                 \<and> elems A' = xs @ ys
                 \<and> used A' = used A - 1
                 \<and> capacity A' = capacity A))
       \<and> (elems A = [1, 2, 3] \<longrightarrow>
            (\<exists>A1 A2. outcome (remove A 1) = Inr (True, A1)
                 \<and> outcome (add dc A1 1) = Inr (True, A2)
                 \<and> elems A2 = [2, 3, 1]
                 \<and> outcome (DumpData A2 []) = Inr ''2  3  1''))"
proof -
  note st = valid_stored[OF assms]
  have c: "outcome (contains A x) = Inr (x \<in> set (elems A))"
    using st by (rule contains_outcome)
  have a: "x \<notin> set (elems A) \<Longrightarrow> outcome (remove A x) = Inr (False, A)"
    using st by (rule remove_absent)
  have p: "\<exists>A' xs ys. outcome (remove A x) = Inr (True, A')
                 \<and> elems A = xs @ x # ys \<and> x \<notin> set xs \<and> x \<notin> set ys
                 \<and> elems A' = xs @ ys
                 \<and> used A' = used A - 1
                 \<and> capacity A' = capacity A"
    if "x \<in> set (elems A)"
  proof -
    from split_list_first[OF that] obtain xs ys where
      s: "elems A = xs @ x # ys" "x \<notin> set xs"
      by blast
    have "distinct (elems A)"
      using assms by (simp add: valid_def)
    with s have "x \<notin> set ys" by simp
    moreover have "remove1 x (elems A) = xs @ ys"
      using s by (simp add: remove1_append)
    ultimately show ?thesis
      using remove_present[OF st that] s by auto
  qed
  have q: "\<exists>A1 A2. outcome (remove A 1) = Inr (True, A1)
                 \<and> outcome (add dc A1 1) = Inr (True, A2)
                 \<and> elems A2 = [2, 3, 1]
                 \<and> outcome (DumpData A2 []) = Inr ''2  3  1''"
    if e: "elems A = [1, 2, 3]"
  proof -
    have u: "used A = 3"
      using elems_length[OF st] e st by (simp add: stored_def)
    have cap: "length (data A) = nat (capacity A)" "3 \<le> capacity A"
      using assms valid_used_le[OF assms] u by (simp_all add: valid_def)
    from remove_present[OF st, of 1] e obtain A1 where
      A1: "outcome (remove A 1) = Inr (True, A1)" "elems A1 = [2, 3]" "stored A1"
        "used A1 = 2" "capacity A1 = capacity A" "length (data A1) = length (data A)"
      using u by auto
    define A2 where "A2 = A1\<lparr>data := (data A1)[nat (used A1) := Some 1], used := used A1 + 1\<rparr>"
    have lt: "nat (used A1) < length (data A1)"
      using A1 cap by simp
    have "outcome (add dc A1 1) = Inr (True, A2)"
      unfolding A2_def using A1 cap by (intro add_room) simp_all
    moreover have e2: "elems A2 = [2, 3, 1]" and "stored A2"
      unfolding A2_def using append_slot[OF A1(3) lt, of 1] A1(2) by simp_all
    moreover have "outcome (DumpData A2 []) = Inr ''2  3  1''"
      using DumpData_outcome[OF \<open>stored A2\<close>, of "[]"] e2
      by (simp add: show_int_digit digit_char_def)
    ultimately show ?thesis
      using A1(1) by blast
  qed
  show ?thesis
    using c a p q by auto
qed

theorem remove_closes_gap_witness:
  "valid set_123 \<and> outcome (contains set_123 1) = Inr True \<and> elems set_123 = [1, 2, 3]
   \<and> (\<exists>A1 A2. outcome (remove set_123 1) = Inr (True, A1)
           \<and> elems A1 = [2, 3] \<and> used A1 = 2 \<and> capacity A1 = 3
           \<and> outcome (add 1 A1 1) = Inr (True, A2)
           \<and> elems A2 = [2, 3, 1]
           \<and> outcome (DumpData A2 []) = Inr ''2  3  1'')
   \<and> outcome (contains set_123 5) = Inr False
   \<and> outcome (remove set_123 5) = Inr (False, set_123)"
proof -
  have v: "valid set_123"
    by (simp add: valid_def stored_def elems_def set_123_def)
  have e: "elems set_123 = [1, 2, 3]" and u: "used set_123 = 3" "capacity set_123 = 3"
    by (simp_all add: elems_def set_123_def)
  have c: "outcome (contains set_123 1) = Inr True" "outcome (contains set_123 5) = Inr False"
    using contains_outcome[OF valid_stored[OF v]] e by simp_all
  have r: "outcome (remove set_123 1) =
      Inr (True, \<lparr>data = [Some 2, Some 3, Some 3], capacity = 3, used = 2\<rparr>)"
    by code_simp
  from remove_closes_gap [OF v, of 1 1] e obtain A2 where
    "outcome (add 1 \<lparr>data = [Some 2, Some 3, Some 3], capacity = 3, used = 2\<rparr> 1) = Inr (True, A2)"
    "elems A2 = [2, 3, 1]" "outcome (DumpData A2 []) = Inr ''2  3  1''"
    unfolding r by auto
  moreover have "elems \<lparr>data = [Some 2, Some 3, Some 3], capacity = 3, used = 2\<rparr> = [2, 3]"
    by (simp add: elems_def)
  ultimately show ?thesis
    using remove_closes_gap [OF v, of 5 1] v e c r by auto
qed

section \<open>Set algebra\<close>

lemma union_loop_nothing_new:
  "stored otherIntSet \<Longrightarrow> stored unionIntSet \<Longrightarrow> 0 \<le> index \<Longrightarrow>
   sizeOtherInt = used otherIntSet \<Longrightarrow>
   set (drop (nat index) (elems otherIntSet)) \<subseteq> set (elems unionIntSet) \<Longrightarrow>
   outcome (union_loop dc otherIntSet sizeOtherInt unionIntSet index) = Inr unionIntSet"
proof (induction dc otherIntSet sizeOtherInt unionIntSet index rule: union_loop.induct)
  case (1 dc otherIntSet sizeOtherInt unionIntSet index)
  show ?case
  proof (cases "index < sizeOtherInt")
    case False
    then show ?thesis by (subst union_loop.simps) simp
  next
    case True
    define i where "i = nat index"
    have lt: "index < used otherIntSet" using True "1.prems" by simp
    have i: "i < length (elems otherIntSet)" using lt "1.prems" by (simp add: i_def)
    have r: "rd otherIntSet index = (Inr (Some (elems otherIntSet ! i)), [(index, used otherIntSet)])"
      unfolding i_def using "1.prems"(1,3) lt by (rule rd_stored)
    have n: "nat (index + 1) = Suc i" using "1.prems" by (simp add: i_def)
    have d: "drop i (elems otherIntSet) = elems otherIntSet ! i # drop (Suc i) (elems otherIntSet)"
      using i by (simp add: Cons_nth_drop_Suc)
    have isin: "elems otherIntSet ! i \<in> set (elems unionIntSet)"
      and rest: "set (drop (Suc i) (elems otherIntSet)) \<subseteq> set (elems unionIntSet)"
      using "1.prems"(5) d by (simp_all flip: i_def)
    have c: "outcome (contains unionIntSet (elems otherIntSet ! i)) = Inr True"
      using contains_outcome[OF "1.prems"(2)] isin by simp
    have "outcome (union_loop dc otherIntSet sizeOtherInt unionIntSet (index + 1)) = Inr unionIntSet"
      using "1.IH"(2)[OF True, of True] "1.prems" rest n by simp
    with True show ?thesis
      by (subst union_loop.simps) (simp add: r val_def c outcome_then_do flip: i_def)
  qed
qed

lemma intersect_loop_nothing_foreign:
  "stored this \<Longrightarrow> stored otherIntSet \<Longrightarrow> 0 \<le> index \<Longrightarrow>
   sizeOtherInt \<le> used this \<Longrightarrow>
   set (elems this) \<subseteq> set (elems otherIntSet) \<Longrightarrow>
   outcome (intersect_loop this otherIntSet sizeOtherInt interSet index) = Inr interSet"
proof (induction this otherIntSet sizeOtherInt interSet index rule: intersect_loop.induct)
  case (1 this otherIntSet sizeOtherInt interSet index)
  show ?case
  proof (cases "index < sizeOtherInt")
    case False
    then show ?thesis by (subst intersect_loop.simps) simp
  next
    case True
    define i where "i = nat index"
    have lt: "index < used this" using True "1.prems" by simp
    have i: "i < length (elems this)" using lt "1.prems" by (simp add: i_def)
    have r: "rd this index = (Inr (Some (elems this ! i)), [(index, used this)])"
      unfolding i_def using "1.prems"(1,3) lt by (rule rd_stored)
    have "elems this ! i \<in> set (elems otherIntSet)"
      using "1.prems"(5) i nth_mem by blast
    then have c: "outcome (contains otherIntSet (elems this ! i)) = Inr True"
      using contains_outcome[OF "1.prems"(2)] by simp
    have "outcome (intersect_loop this otherIntSet sizeOtherInt interSet (index + 1)) = Inr interSet"
      using "1.IH"(2)[OF True, of True] "1.prems" by simp
    with True show ?thesis
      by (subst intersect_loop.simps) (simp add: r val_def c outcome_then_do flip: i_def)
  qed
qed

lemma subtract_loop_self:
  "stored otherIntSet \<Longrightarrow> stored subSet \<Longrightarrow> 0 \<le> index \<Longrightarrow>
   sizeOtherInt = used otherIntSet \<Longrightarrow>
   elems subSet = drop (nat index) (elems otherIntSet) \<Longrightarrow>
   \<exists>s'. outcome (subtract_loop otherIntSet sizeOtherInt subSet index) = Inr s' \<and> used s' = 0"
proof (induction otherIntSet sizeOtherInt subSet index rule: subtract_loop.induct)
  case (1 otherIntSet sizeOtherInt subSet index)
  show ?case
  proof (cases "index < sizeOtherInt")
    case False
    with "1.prems" have "elems subSet = []" by simp
    then have "length (elems subSet) = 0" by simp
    then have "used subSet = 0"
      using "1.prems"(2) elems_length[OF "1.prems"(2)] by (simp add: stored_def)
    with False show ?thesis by (subst subtract_loop.simps) simp
  next
    case True
    define i where "i = nat index"
    define v where "v = elems otherIntSet ! i"
    have lt: "index < used otherIntSet" using True "1.prems" by simp
    have i: "i < length (elems otherIntSet)" using lt "1.prems" by (simp add: i_def)
    have r: "rd otherIntSet index = (Inr (Some v), [(index, used otherIntSet)])"
      unfolding i_def v_def using "1.prems"(1,3) lt by (rule rd_stored)
    have n: "nat (index + 1) = Suc i" using "1.prems" by (simp add: i_def)
    have d: "elems subSet = v # drop (Suc i) (elems otherIntSet)"
      using i "1.prems"(5) by (simp add: Cons_nth_drop_Suc v_def flip: i_def)
    then have c: "outcome (contains subSet v) = Inr True"
      using contains_outcome[OF "1.prems"(2)] by simp
    from remove_present[OF "1.prems"(2), of v] d obtain s1 where
      s1: "outcome (remove subSet v) = Inr (True, s1)"
        "elems s1 = drop (Suc i) (elems otherIntSet)" "stored s1"
      by auto
    have "\<exists>s'. outcome (subtract_loop otherIntSet sizeOtherInt (snd (True, s1)) (index + 1)) = Inr s'
        \<and> used s' = 0"
      using "1.IH"(1)[OF True, of True "(True, s1)"] "1.prems" s1 n by simp
    with True show ?thesis
      by (subst subtract_loop.simps) (simp add: r val_def c s1 outcome_then_do)
  qed
qed

text \<open>
  C6. For a set \<open>A\<close> that satisfies the class invariant, the union of \<open>A\<close> with itself and
  the intersection of \<open>A\<close> with itself are returned and compare equal to \<open>A\<close>, and the
  difference of \<open>A\<close> and itself is returned and is empty.
\<close>

theorem self_algebra:
  assumes "valid A"
  shows "\<exists>U I D. outcome (unionWith dc A A) = Inr U \<and> outcome (equals U A) = Inr True
           \<and> outcome (intersect A A) = Inr I \<and> outcome (equals I A) = Inr True
           \<and> outcome (subtract A A) = Inr D \<and> isEmpty D"
proof -
  note st = valid_stored[OF assms]
  have "length (data A) = nat (capacity A)" "0 \<le> capacity A"
    using assms by (simp_all add: valid_def)
  then have cp: "outcome (IntSet_copy A) = Inr A"
    by (rule IntSet_copy_outcome)
  have "outcome (union_loop dc A (used A) A 0) = Inr A"
    using st st by (rule union_loop_nothing_new) simp_all
  then have u: "outcome (unionWith dc A A) = Inr A"
    using cp by (simp add: unionWith_def size_of_def outcome_then_do)
  have "outcome (intersect_loop A A (used A) A 0) = Inr A"
    using st st by (rule intersect_loop_nothing_foreign) simp_all
  then have i: "outcome (intersect A A) = Inr A"
    using cp by (simp add: intersect_def size_of_def outcome_then_do)
  have "\<exists>s'. outcome (subtract_loop A (used A) A 0) = Inr s' \<and> used s' = 0"
    using st st by (rule subtract_loop_self) simp_all
  then obtain D where d: "outcome (subtract A A) = Inr D" "isEmpty D"
    using cp by (auto simp: subtract_def size_of_def outcome_then_do isEmpty_def)
  have "outcome (equals A A) = Inr True"
    using equals_outcome[OF st st] by simp
  with u i d show ?thesis
    by blast
qed

theorem self_algebra_witness:
  "valid set_123 \<and> outcome (unionWith 1 set_123 set_123) = Inr set_123
   \<and> outcome (intersect set_123 set_123) = Inr set_123
   \<and> outcome (equals set_123 set_123) = Inr True
   \<and> (\<exists>D. outcome (subtract set_123 set_123) = Inr D \<and> isEmpty D)"
proof -
  have v: "valid set_123"
    by (simp add: valid_def stored_def elems_def set_123_def)
  have "outcome (unionWith 1 set_123 set_123) = Inr set_123"
    "outcome (intersect set_123 set_123) = Inr set_123"
    by code_simp+
  with self_algebra [OF v, of 1] v show ?thesis
    by auto
qed

lemma prefix_only_union_loop:
  "0 \<le> index \<Longrightarrow> sizeOtherInt \<le> used otherIntSet \<Longrightarrow>
   prefix_only (reads (union_loop dc otherIntSet sizeOtherInt unionIntSet index))"
proof (induction dc otherIntSet sizeOtherInt unionIntSet index rule: union_loop.induct)
  case (1 dc otherIntSet sizeOtherInt unionIntSet index)
  show ?case
  proof (cases "index < sizeOtherInt")
    case False
    then show ?thesis by (subst union_loop.simps) simp
  next
    case True
    have IH1: "\<And>r :: bool \<times> IntSet. prefix_only (reads (union_loop dc otherIntSet sizeOtherInt (snd r) (index + 1)))"
      using "1.IH"(1)[OF True, of False] "1.prems" by simp
    have IH2: "prefix_only (reads (union_loop dc otherIntSet sizeOtherInt unionIntSet (index + 1)))"
      using "1.IH"(2)[OF True, of True] "1.prems" by simp
    have lt: "index < used otherIntSet"
      using True "1.prems" by simp
    show ?thesis
      apply (subst union_loop.simps)
      using True "1.prems"(1) lt IH1 IH2
      by (auto intro!: prefix_only_then_do prefix_only_rd prefix_only_contains prefix_only_add)
  qed
qed

lemma prefix_only_subtract_loop:
  "0 \<le> index \<Longrightarrow> sizeOtherInt \<le> used otherIntSet \<Longrightarrow>
   prefix_only (reads (subtract_loop otherIntSet sizeOtherInt subSet index))"
proof (induction otherIntSet sizeOtherInt subSet index rule: subtract_loop.induct)
  case (1 otherIntSet sizeOtherInt subSet index)
  show ?case
  proof (cases "index < sizeOtherInt")
    case False
    then show ?thesis by (subst subtract_loop.simps) simp
  next
    case True
    have IH1: "\<And>r :: bool \<times> IntSet. prefix_only (reads (subtract_loop otherIntSet sizeOtherInt (snd r) (index + 1)))"
      using "1.IH"(1)[OF True, of True] "1.prems" by simp
    have IH2: "prefix_only (reads (subtract_loop otherIntSet sizeOtherInt subSet (index + 1)))"
      using "1.IH"(2)[OF True, of False] "1.prems" by simp
    have lt: "index < used otherIntSet"
      using True "1.prems" by simp
    show ?thesis
      apply (subst subtract_loop.simps)
      using True "1.prems"(1) lt IH1 IH2
      by (auto intro!: prefix_only_then_do prefix_only_rd prefix_only_contains prefix_only_remove)
  qed
qed

lemma reads_after_copy:
  "(\<And>c. prefix_only (reads (f c))) \<Longrightarrow>
   \<exists>l. reads (then_do (IntSet_copy s) f) = reads (IntSet_copy s) @ l \<and> prefix_only l"
  by (cases "outcome (IntSet_copy s)") (simp_all add: reads_then_do)

lemma reads_IntSet_init [simp]: "reads (IntSet_init dc h) = []"
  by (simp add: IntSet_init_def Let_def reads_then_do split: sum.splits)

section \<open>Which array positions are read\<close>

text \<open>
  C1. The loop of \<^verbatim>\<open>intersect\<close> runs over the indices below \<^verbatim>\<open>used\<close> of the other
  set and reads the array of the invoking set at them. With the invoking set 1, 2, 3
  and the other set 2, only the element 1 is examined: the set returned holds 2 and
  3, although the other set does not contain 3.
\<close>

theorem intersect_examines_other_count_only:
  "valid set_123 \<and> valid set_2
   \<and> outcome (intersect set_123 set_2) =
       Inr \<lparr>data = [Some 2, Some 3, Some 3], capacity = 3, used = 2\<rparr>
   \<and> elems \<lparr>data = [Some 2, Some 3, Some 3], capacity = 3, used = 2\<rparr> = [2, 3]
   \<and> outcome (contains set_123 3) = Inr True
   \<and> outcome (contains set_2 3) = Inr False"
proof -
  have "valid set_123" "valid set_2"
    by (simp_all add: valid_def stored_def elems_def set_123_def set_2_def)
  moreover have "outcome (intersect set_123 set_2) =
       Inr \<lparr>data = [Some 2, Some 3, Some 3], capacity = 3, used = 2\<rparr>"
    by code_simp
  moreover have "outcome (contains set_123 3) = Inr True" "outcome (contains set_2 3) = Inr False"
    by code_simp+
  ultimately show ?thesis
    by (simp add: elems_def)
qed

text \<open>
  C4. With a default capacity of 1, \<^verbatim>\<open>resize(0)\<close> on the set 1, 2, 3 settles on the
  capacity 1, allocates one slot and runs off the new array in the copy loop.
\<close>

theorem resize_nonpositive_overruns:
  "valid set_123 \<and> outcome (resize 1 set_123 0) = Inl OutOfBounds"
proof -
  have "valid set_123"
    by (simp add: valid_def stored_def elems_def set_123_def)
  moreover have "outcome (resize 1 set_123 0) = Inl OutOfBounds"
    by code_simp
  ultimately show ?thesis
    by simp
qed

text \<open>
  C2, as the claim has it, fails: the copy constructor reads every slot of the source
  array, here the positions 3 and 4 of a set with three valid elements; and
  \<^verbatim>\<open>intersect\<close> reads position 1 of the array of an invoking set with one valid
  element.
\<close>

theorem reads_beyond_prefix:
  "reads (IntSet_copy set_312) = [(0, 3), (1, 3), (2, 3), (3, 3), (4, 3)]
   \<and> \<not> prefix_only (reads (IntSet_copy set_312))
   \<and> used set_2 = 1 \<and> (1, 1) \<in> set (reads (intersect set_2 set_123))
   \<and> \<not> prefix_only (reads (intersect set_2 set_123))"
proof -
  have a: "reads (IntSet_copy set_312) = [(0, 3), (1, 3), (2, 3), (3, 3), (4, 3)]"
    by code_simp
  have b: "reads (intersect set_2 set_123) = [(0, 1), (0, 1), (0, 3), (1, 3), (1, 1)]"
    by code_simp
  show ?thesis
    unfolding a b by (simp add: prefix_only_def set_2_def)
qed

text \<open>
  C2, amended. The queries, \<^verbatim>\<open>add\<close>, \<^verbatim>\<open>remove\<close>, the assignment operator and
  \<^verbatim>\<open>resize\<close> read an array only at positions below \<^verbatim>\<open>used\<close> of the set that owns
  it, and the constructor from a capacity reads nothing. The copy constructor reads
  every position of the source array, from 0 up to \<^verbatim>\<open>capacity - 1\<close>, when the source
  satisfies the class invariant. \<^verbatim>\<open>unionWith\<close> and \<^verbatim>\<open>subtract\<close> begin with the reads
  of the copy constructor on the invoking set, and all their further reads are below
  \<^verbatim>\<open>used\<close> of the owning set. (\<^verbatim>\<open>size\<close>, \<^verbatim>\<open>isEmpty\<close> and \<^verbatim>\<open>reset\<close> do not touch
  the array.)
\<close>

theorem reads_below_used_or_whole_copy:
  "prefix_only (reads (contains s x))
   \<and> prefix_only (reads (isSubsetOf s t))
   \<and> prefix_only (reads (equals s t))
   \<and> prefix_only (reads (DumpData s out))
   \<and> prefix_only (reads (add dc s x))
   \<and> prefix_only (reads (remove s x))
   \<and> prefix_only (reads (assign s t same))
   \<and> prefix_only (reads (resize dc s n))
   \<and> reads (IntSet_init dc h) = []
   \<and> (valid s \<longrightarrow> reads (IntSet_copy s) = map (\<lambda>i. (i, used s)) [0..capacity s - 1])
   \<and> (\<exists>l. reads (unionWith dc s t) = reads (IntSet_copy s) @ l \<and> prefix_only l)
   \<and> (\<exists>l. reads (subtract s t) = reads (IntSet_copy s) @ l \<and> prefix_only l)"
proof -
  have c: "valid s \<Longrightarrow> reads (IntSet_copy s) = map (\<lambda>i. (i, used s)) [0..capacity s - 1]"
    by (rule IntSet_copy_reads) (simp_all add: valid_def)
  have u: "\<exists>l. reads (unionWith dc s t) = reads (IntSet_copy s) @ l \<and> prefix_only l"
    unfolding unionWith_def size_of_def
    by (rule reads_after_copy) (simp add: prefix_only_union_loop)
  have d: "\<exists>l. reads (subtract s t) = reads (IntSet_copy s) @ l \<and> prefix_only l"
    unfolding subtract_def size_of_def
    by (rule reads_after_copy) (simp add: prefix_only_subtract_loop)
  show ?thesis
    using c u d
    by (simp add: prefix_only_contains prefix_only_isSubsetOf prefix_only_equals
        prefix_only_DumpData prefix_only_add prefix_only_remove prefix_only_assign
        prefix_only_resize)
qed

theorem reads_below_used_or_whole_copy_witness:
  "valid set_312
   \<and> reads (IntSet_copy set_312) = [(0, 3), (1, 3), (2, 3), (3, 3), (4, 3)]
   \<and> reads (contains set_312 2) = [(0, 3), (1, 3), (2, 3)]
   \<and> prefix_only (reads (contains set_312 2))
   \<and> prefix_only (reads (remove set_312 2))
   \<and> prefix_only (reads (add 1 set_312 2))"
proof -
  have v: "valid set_312"
    by (simp add: valid_def stored_def elems_def set_312_def)
  have u: "used set_312 = 3" "capacity set_312 = 5"
    by (simp_all add: set_312_def)
  have i: "[0..(4::int)] = [0, 1, 2, 3, 4]"
    by (simp add: upto.simps)
  have r: "reads (contains set_312 2) = [(0, 3), (1, 3), (2, 3)]"
    by code_simp
  show ?thesis
    using reads_below_used_or_whole_copy [of set_312 2 set_312 "[]" 1 False 0 0] v u i r
    by simp
qed

section \<open>The class invariant is kept\<close>

lemma resize_valid:
  assumes "valid s" and "0 < dc" and "outcome (resize dc s n) = Inr s'"
  shows "valid s'"
proof -
  note st = valid_stored[OF assms(1)]
  define r where "r = (if n \<le> 0 then dc else if n < used s then used s else n)"
  have le: "used s \<le> r"
    using assms(3) st r_def by (rule resize_Inr_D)
  have s': "s' = s\<lparr>capacity := r,
      data := take (nat (used s)) (data s) @ replicate (nat r - nat (used s)) None\<rparr>"
    using resize_outcome[OF st r_def le] assms(3) by simp
  have "1 \<le> r"
    using assms(2) by (auto simp: r_def)
  moreover have "nat (used s) \<le> length (data s)" "0 \<le> used s"
    using st by (simp_all add: stored_def)
  moreover have "distinct (elems s)"
    using assms(1) by (simp add: valid_def)
  ultimately show ?thesis
    unfolding s' valid_def using stored_resized[OF st le] le by simp
qed

lemma assign_valid:
  assumes "valid rhs" and "outcome (assign this rhs False) = Inr s'"
  shows "valid s'"
proof -
  note st = valid_stored[OF assms(1)]
  have v: "length (data rhs) = nat (capacity rhs)" "1 \<le> capacity rhs" "distinct (elems rhs)"
    using assms(1) by (simp_all add: valid_def)
  have u: "nat (used rhs) \<le> length (data rhs)" "0 \<le> used rhs"
      "None \<notin> set (take (nat (used rhs)) (data rhs))"
    using st by (simp_all add: stored_def)
  have "s' = \<lparr>data = take (nat (used rhs)) (data rhs)
                    @ replicate (nat (capacity rhs) - nat (used rhs)) None,
         capacity = capacity rhs, used = used rhs\<rparr>"
    using assign_outcome[OF st v(1), of this] v(2) assms(2) by simp
  then show ?thesis
    using v u by (simp add: valid_def stored_def elems_def)
qed

lemma reset_valid: "valid s \<Longrightarrow> valid (reset s)"
  by (simp add: valid_def stored_def elems_def reset_def)

lemma IntSet_copy_valid:
  assumes "valid src" and "outcome (IntSet_copy src) = Inr s'"
  shows "s' = src"
proof -
  have "length (data src) = nat (capacity src)" "0 \<le> capacity src"
    using assms(1) by (simp_all add: valid_def)
  from IntSet_copy_outcome[OF this] assms(2) show ?thesis by simp
qed

lemma yieldsI: "(\<And>y. outcome m = Inr y \<Longrightarrow> P y) \<Longrightarrow> yields P m"
  by (simp add: yields_def split: sum.splits)

lemma yieldsD: "yields P m \<Longrightarrow> outcome m = Inr y \<Longrightarrow> P y"
  by (simp add: yields_def)

lemma yields_ok [simp]: "yields P (ok x) \<longleftrightarrow> P x"
  by (simp add: yields_def)

lemma yields_then_do:
  "(\<And>x. outcome m = Inr x \<Longrightarrow> yields P (f x)) \<Longrightarrow> yields P (then_do m f)"
proof (rule yieldsI)
  fix y
  assume f: "\<And>x. outcome m = Inr x \<Longrightarrow> yields P (f x)"
    and "outcome (then_do m f) = Inr y"
  then obtain x where "outcome m = Inr x" "outcome (f x) = Inr y"
    by (auto dest: then_do_Inr_D)
  with f show "P y"
    by (auto dest: yieldsD)
qed

lemma union_loop_valid:
  "valid unionIntSet \<Longrightarrow>
   yields valid (union_loop dc otherIntSet sizeOtherInt unionIntSet index)"
proof (induction dc otherIntSet sizeOtherInt unionIntSet index rule: union_loop.induct)
  case (1 dc otherIntSet sizeOtherInt unionIntSet index)
  show ?case
  proof (cases "index < sizeOtherInt")
    case False
    with "1.prems" show ?thesis by (subst union_loop.simps) simp
  next
    case True
    have IH1: "\<And>(r :: bool \<times> IntSet) v. outcome (add dc unionIntSet v) = Inr r \<Longrightarrow>
        yields valid (union_loop dc otherIntSet sizeOtherInt (snd r) (index + 1))"
    proof -
      fix r :: "bool \<times> IntSet" and v
      assume "outcome (add dc unionIntSet v) = Inr r"
      then have "valid (snd r)"
        using add_valid[OF "1.prems", of dc v "fst r" "snd r"] by simp
      then show "yields valid (union_loop dc otherIntSet sizeOtherInt (snd r) (index + 1))"
        using "1.IH"(1)[OF True, of False r] by simp
    qed
    have IH2: "yields valid (union_loop dc otherIntSet sizeOtherInt unionIntSet (index + 1))"
      using "1.IH"(2)[OF True, of True] "1.prems" by simp
    show ?thesis
      apply (subst union_loop.simps)
      using True IH1 IH2
      by (auto intro!: yields_then_do)
  qed
qed

lemma intersect_loop_valid:
  "valid interSet \<Longrightarrow>
   yields valid (intersect_loop this otherIntSet sizeOtherInt interSet index)"
proof (induction this otherIntSet sizeOtherInt interSet index rule: intersect_loop.induct)
  case (1 this otherIntSet sizeOtherInt interSet index)
  show ?case
  proof (cases "index < sizeOtherInt")
    case False
    with "1.prems" show ?thesis by (subst intersect_loop.simps) simp
  next
    case True
    have IH1: "\<And>(r :: bool \<times> IntSet) v. outcome (remove interSet v) = Inr r \<Longrightarrow>
        yields valid (intersect_loop this otherIntSet sizeOtherInt (snd r) (index + 1))"
    proof -
      fix r :: "bool \<times> IntSet" and v
      assume "outcome (remove interSet v) = Inr r"
      then have "valid (snd r)"
        using remove_valid[OF "1.prems", of v "fst r" "snd r"] by simp
      then show "yields valid (intersect_loop this otherIntSet sizeOtherInt (snd r) (index + 1))"
        using "1.IH"(1)[OF True, of False r] by simp
    qed
    have IH2: "yields valid (intersect_loop this otherIntSet sizeOtherInt interSet (index + 1))"
      using "1.IH"(2)[OF True, of True] "1.prems" by simp
    show ?thesis
      apply (subst intersect_loop.simps)
      using True IH1 IH2
      by (auto intro!: yields_then_do)
  qed
qed

lemma subtract_loop_valid:
  "valid subSet \<Longrightarrow>
   yields valid (subtract_loop otherIntSet sizeOtherInt subSet index)"
proof (induction otherIntSet sizeOtherInt subSet index rule: subtract_loop.induct)
  case (1 otherIntSet sizeOtherInt subSet index)
  show ?case
  proof (cases "index < sizeOtherInt")
    case False
    with "1.prems" show ?thesis by (subst subtract_loop.simps) simp
  next
    case True
    have IH1: "\<And>(r :: bool \<times> IntSet) v. outcome (remove subSet v) = Inr r \<Longrightarrow>
        yields valid (subtract_loop otherIntSet sizeOtherInt (snd r) (index + 1))"
    proof -
      fix r :: "bool \<times> IntSet" and v
      assume "outcome (remove subSet v) = Inr r"
      then have "valid (snd r)"
        using remove_valid[OF "1.prems", of v "fst r" "snd r"] by simp
      then show "yields valid (subtract_loop otherIntSet sizeOtherInt (snd r) (index + 1))"
        using "1.IH"(1)[OF True, of True r] by simp
    qed
    have IH2: "yields valid (subtract_loop otherIntSet sizeOtherInt subSet (index + 1))"
      using "1.IH"(2)[OF True, of False] "1.prems" by simp
    show ?thesis
      apply (subst subtract_loop.simps)
      using True IH1 IH2
      by (auto intro!: yields_then_do)
  qed
qed

lemma reachable_valid:
  assumes "0 < dc" and "reachable dc s"
  shows "valid s"
  using assms(2)
proof (induction rule: reachable.induct)
  case (constructed h s)
  then show ?case
    using assms(1) valid_init[OF assms(1), of h] by (simp add: IntSet_init_outcome)
next
  case (copied a s)
  then show ?case using IntSet_copy_valid by blast
next
  case (assigned a b s)
  then show ?case using assign_valid by blast
next
  case (self_assigned a s)
  then show ?case by (simp add: assign_def)
next
  case (added a x r s)
  then show ?case using add_valid by blast
next
  case (removed a x r s)
  then show ?case using remove_valid by blast
next
  case (cleared a)
  then show ?case by (simp add: reset_valid)
next
  case (resized a n s)
  then show ?case using resize_valid[OF _ assms(1)] by blast
next
  case (united a b s)
  from united.hyps(3) obtain u where
    "outcome (IntSet_copy a) = Inr u" "outcome (union_loop dc b (size_of b) u 0) = Inr s"
    by (auto simp: unionWith_def dest!: then_do_Inr_D)
  with united.IH(1) IntSet_copy_valid[of a u] yieldsD[OF union_loop_valid] show ?case by blast
next
  case (intersected a b s)
  from intersected.hyps(3) obtain u where
    "outcome (IntSet_copy a) = Inr u" "outcome (intersect_loop a b (size_of b) u 0) = Inr s"
    by (auto simp: intersect_def dest!: then_do_Inr_D)
  with intersected.IH(1) IntSet_copy_valid[of a u] yieldsD[OF intersect_loop_valid] show ?case by blast
next
  case (subtracted a b s)
  from subtracted.hyps(3) obtain u where
    "outcome (IntSet_copy a) = Inr u" "outcome (subtract_loop b (size_of b) u 0) = Inr s"
    by (auto simp: subtract_def dest!: then_do_Inr_D)
  with subtracted.IH(1) IntSet_copy_valid[of a u] yieldsD[OF subtract_loop_valid] show ?case by blast
qed

text \<open>
  C8. With a positive default capacity, every reachable object has pairwise distinct
  valid elements, a capacity that is at least \<^verbatim>\<open>used\<close>, and a capacity of at least 1.
\<close>

theorem reachable_invariant:
  assumes "0 < dc" and "reachable dc s"
  shows "distinct (elems s) \<and> used s \<le> capacity s \<and> 1 \<le> capacity s"
  using reachable_valid[OF assms] by (auto simp: valid_def stored_def)

theorem reachable_invariant_witness:
  "(0::int) < 1
   \<and> reachable 1 \<lparr>data = [Some 20, Some 20], capacity = 2, used = 1\<rparr>
   \<and> distinct (elems \<lparr>data = [Some 20, Some 20], capacity = 2, used = 1\<rparr>)
   \<and> used \<lparr>data = [Some 20, Some 20], capacity = 2, used = 1\<rparr>
       \<le> capacity \<lparr>data = [Some 20, Some 20], capacity = 2, used = 1\<rparr>
   \<and> 1 \<le> capacity \<lparr>data = [Some 20, Some 20], capacity = 2, used = 1\<rparr>"
proof -
  have "outcome (IntSet_init 1 (- 5)) = Inr \<lparr>data = [None], capacity = 1, used = 0\<rparr>"
    by code_simp
  then have r0: "reachable 1 \<lparr>data = [None], capacity = 1, used = 0\<rparr>"
    by (rule reachable.constructed)
  have "outcome (add 1 \<lparr>data = [None], capacity = 1, used = 0\<rparr> 10) =
      Inr (True, \<lparr>data = [Some 10], capacity = 1, used = 1\<rparr>)"
    by code_simp
  with r0 have r1: "reachable 1 \<lparr>data = [Some 10], capacity = 1, used = 1\<rparr>"
    by (rule reachable.added)
  have "outcome (add 1 \<lparr>data = [Some 10], capacity = 1, used = 1\<rparr> 20) =
      Inr (True, \<lparr>data = [Some 10, Some 20], capacity = 2, used = 2\<rparr>)"
    by code_simp
  with r1 have r2: "reachable 1 \<lparr>data = [Some 10, Some 20], capacity = 2, used = 2\<rparr>"
    by (rule reachable.added)
  have "outcome (remove \<lparr>data = [Some 10, Some 20], capacity = 2, used = 2\<rparr> 10) =
      Inr (True, \<lparr>data = [Some 20, Some 20], capacity = 2, used = 1\<rparr>)"
    by code_simp
  with r2 have r3: "reachable 1 \<lparr>data = [Some 20, Some 20], capacity = 2, used = 1\<rparr>"
    by (rule reachable.removed)
  have p: "(0::int) < 1" by simp
  from reachable_invariant [OF p r3] r3 show ?thesis
    by simp
qed

end
